theory Spec2Isabelle
  imports Main "HOL-Library.Word"
begin

unbundle bit_operations_syntax

section \<open>Saving weights and hyperparameters in one file\<close>

text \<open>
  The notebook \<^verbatim>\<open>examples/serialisation.ipynb\<close> defines three functions:
  \<^verbatim>\<open>make\<close> builds a model from hyperparameters, \<^verbatim>\<open>save\<close> writes the
  hyperparameters as one line of JSON followed by the serialised leaves of the model, and
  \<^verbatim>\<open>load\<close> reads the line, rebuilds a skeleton with \<^verbatim>\<open>make\<close> and fills it
  from the rest of the file.

  The three functions call Python's \<^verbatim>\<open>json\<close> module, the built-in \<^verbatim>\<open>open\<close>,
  and Equinox (\<^verbatim>\<open>eqx.nn.MLP\<close>, \<^verbatim>\<open>eqx.tree_serialise_leaves\<close>,
  \<^verbatim>\<open>eqx.tree_deserialise_leaves\<close>). Each of them is embedded below, in the order in
  which the notebook needs it.
\<close>

subsection \<open>Bytes, text and failures\<close>

text \<open>
  A file is a list of bytes. A Python \<^verbatim>\<open>str\<close> is a list of Unicode code points
  (natural numbers below \<open>0x110000\<close>); \<open>str_of\<close> turns a literal of ASCII characters
  into one.
\<close>

type_synonym byte = "8 word"

type_synonym pystr = "nat list"

definition str_of :: "string \<Rightarrow> pystr" where
  "str_of s = map of_char s"

text \<open>
  Every exception that leaves \<^verbatim>\<open>save\<close> or \<^verbatim>\<open>load\<close> is a value of
  \<open>failure\<close>, under the name the specification gives to its kind:
  \<^item> \<open>UnencodableHyperparameters\<close>: the \<^verbatim>\<open>TypeError\<close> of \<^verbatim>\<open>json.dumps\<close>;
  \<^item> \<open>MalformedHeader\<close>: the \<^verbatim>\<open>JSONDecodeError\<close> of \<^verbatim>\<open>json.loads\<close> on the
    first line;
  \<^item> \<open>UndecodableHeader\<close>: the \<^verbatim>\<open>UnicodeDecodeError\<close> of \<^verbatim>\<open>bytes.decode\<close>
    on the first line;
  \<^item> \<open>ShapeMismatch\<close> and \<open>TruncatedStream\<close>: raised while the leaves are read;
  \<^item> \<open>ConstructorError\<close>: the call of \<^verbatim>\<open>make\<close> raises;
  \<^item> \<open>EncodeError\<close>: the \<^verbatim>\<open>UnicodeEncodeError\<close> of \<^verbatim>\<open>str.encode\<close>;
  \<^item> \<open>OpenFailed\<close>: the \<^verbatim>\<open>OSError\<close> or \<^verbatim>\<open>ValueError\<close> of \<^verbatim>\<open>open\<close>;
  \<^item> \<open>RecursionLimit\<close>: the \<^verbatim>\<open>RecursionError\<close> of \<^verbatim>\<open>json\<close> on values nested
    deeper than the interpreter allows;
  \<^item> \<open>IntegerDigits\<close>: the \<^verbatim>\<open>ValueError\<close> of the conversion between an integer
    and a decimal text of more than 4300 digits;
  \<^item> \<open>ScannerBound\<close>: no exception of the program; the value of \<open>json_loads\<close> if its
    scanner ran out of steps, which it never does (\<open>json_loads_fuel\<close>).
\<close>

datatype failure =
    UnencodableHyperparameters
  | MalformedHeader
  | UndecodableHeader
  | ShapeMismatch
  | TruncatedStream
  | ConstructorError
  | EncodeError
  | OpenFailed
  | RecursionLimit
  | IntegerDigits
  | ScannerBound

subsection \<open>UTF-8\<close>

text \<open>
  \<^verbatim>\<open>str.encode()\<close> and \<^verbatim>\<open>bytes.decode()\<close> use UTF-8 with strict error
  handling: surrogate code points cannot be encoded, and overlong forms, surrogates and
  values above \<open>0x10FFFF\<close> cannot be decoded.
\<close>

definition utf8_char :: "nat \<Rightarrow> nat list option" where
  "utf8_char c =
     (if c < 128 then Some [c]
      else if c < 2048 then Some [192 + c div 64, 128 + c mod 64]
      else if c < 65536 then
        (if 55296 \<le> c \<and> c < 57344 then None
         else Some [224 + c div 4096, 128 + c div 64 mod 64, 128 + c mod 64])
      else if c < 1114112 then
        Some [240 + c div 262144, 128 + c div 4096 mod 64, 128 + c div 64 mod 64,
              128 + c mod 64]
      else None)"

fun utf8_encode :: "pystr \<Rightarrow> nat list option" where
  "utf8_encode [] = Some []"
| "utf8_encode (c # cs) =
     (case utf8_char c of
        None \<Rightarrow> None
      | Some bs \<Rightarrow> (case utf8_encode cs of None \<Rightarrow> None | Some r \<Rightarrow> Some (bs @ r)))"

definition str_encode :: "pystr \<Rightarrow> failure + byte list" where
  "str_encode s =
     (case utf8_encode s of None \<Rightarrow> Inl EncodeError | Some bs \<Rightarrow> Inr (map of_nat bs))"

definition cont :: "nat \<Rightarrow> bool" where
  "cont b = (128 \<le> b \<and> b < 192)"

fun utf8_decode :: "nat list \<Rightarrow> pystr option" where
  "utf8_decode [] = Some []"
| "utf8_decode (b0 # bs) =
     (if b0 < 128 then map_option ((#) b0) (utf8_decode bs)
      else if 194 \<le> b0 \<and> b0 < 224 then
        (case bs of
           b1 # r \<Rightarrow>
             if cont b1
             then map_option ((#) ((b0 - 192) * 64 + (b1 - 128))) (utf8_decode r)
             else None
         | _ \<Rightarrow> None)
      else if 224 \<le> b0 \<and> b0 < 240 then
        (case bs of
           b1 # b2 # r \<Rightarrow>
             if cont b1 \<and> cont b2 \<and> (b0 = 224 \<longrightarrow> 160 \<le> b1) \<and> (b0 = 237 \<longrightarrow> b1 < 160)
             then map_option ((#) ((b0 - 224) * 4096 + (b1 - 128) * 64 + (b2 - 128)))
                    (utf8_decode r)
             else None
         | _ \<Rightarrow> None)
      else if 240 \<le> b0 \<and> b0 < 245 then
        (case bs of
           b1 # b2 # b3 # r \<Rightarrow>
             if cont b1 \<and> cont b2 \<and> cont b3 \<and> (b0 = 240 \<longrightarrow> 144 \<le> b1)
                \<and> (b0 = 244 \<longrightarrow> b1 < 144)
             then map_option
                    ((#) ((b0 - 240) * 262144 + (b1 - 128) * 4096 + (b2 - 128) * 64
                          + (b3 - 128)))
                    (utf8_decode r)
             else None
         | _ \<Rightarrow> None)
      else None)"

definition bytes_decode :: "byte list \<Rightarrow> failure + pystr" where
  "bytes_decode bs =
     (case utf8_decode (map unat bs) of None \<Rightarrow> Inl UndecodableHeader | Some s \<Rightarrow> Inr s)"

subsection \<open>Python values\<close>

text \<open>
  The values that hyperparameters and parsed JSON documents are made of. A dictionary is
  the list of its items in insertion order, with string keys (the keys of a dictionary
  passed as \<^verbatim>\<open>**params\<close> are strings). \<open>PyFloat\<close> holds a float by its JSON number
  text: floating-point arithmetic is not embedded, and the only question the program asks
  of a float is whether it is zero. \<open>PyObject\<close> stands for any other object (a set, an
  array, a function, ...), which \<^verbatim>\<open>json\<close> cannot encode; its argument is the truth
  value of the object.
\<close>

datatype pyval =
    PyNone
  | PyBool bool
  | PyInt int
  | PyFloat pystr
  | PyStr pystr
  | PyList "pyval list"
  | PyDict "(pystr \<times> pyval) list"
  | PyObject bool

text \<open>
  Truth value testing, as \<^verbatim>\<open>if use_tanh:\<close> does it. A float is false when it is
  zero: the number text \<open>m \<times> 10\<^sup>e\<close> is read with correct rounding to the nearest double,
  which is zero exactly when \<open>m \<times> 10\<^sup>e \<le> 2\<^sup>-\<^sup>1\<^sup>0\<^sup>7\<^sup>5\<close>. \<open>NaN\<close> and the infinities
  are true.
\<close>

definition is_digit :: "nat \<Rightarrow> bool" where
  "is_digit c = (48 \<le> c \<and> c \<le> 57)"

fun digits_val :: "nat \<Rightarrow> pystr \<Rightarrow> nat" where
  "digits_val acc [] = acc"
| "digits_val acc (c # cs) = digits_val (10 * acc + (c - 48)) cs"

definition float_nonzero :: "pystr \<Rightarrow> bool" where
  "float_nonzero t =
     (let u = (case t of c # cs \<Rightarrow> if c = 45 then cs else t | [] \<Rightarrow> t);
          ip = takeWhile is_digit u;
          r1 = dropWhile is_digit u;
          fp = (case r1 of c # cs \<Rightarrow> if c = 46 then takeWhile is_digit cs else [] | [] \<Rightarrow> []);
          r2 = (case r1 of c # cs \<Rightarrow> if c = 46 then dropWhile is_digit cs else r1 | [] \<Rightarrow> r1);
          ex = (case r2 of
                  c # cs \<Rightarrow>
                    (case cs of
                       d # ds \<Rightarrow>
                         if d = 45 then - int (digits_val 0 ds)
                         else if d = 43 then int (digits_val 0 ds)
                         else int (digits_val 0 cs)
                     | [] \<Rightarrow> 0)
                | [] \<Rightarrow> 0);
          m = digits_val 0 (ip @ fp);
          e = ex - int (length fp)
      in if ip = [] then True
         else m \<noteq> 0 \<and> (0 \<le> e \<or> 10 ^ nat (- e) < m * 2 ^ 1075))"

fun truthy :: "pyval \<Rightarrow> bool" where
  "truthy PyNone = False"
| "truthy (PyBool b) = b"
| "truthy (PyInt i) = (i \<noteq> 0)"
| "truthy (PyFloat t) = float_nonzero t"
| "truthy (PyStr s) = (s \<noteq> [])"
| "truthy (PyList vs) = (vs \<noteq> [])"
| "truthy (PyDict kvs) = (kvs \<noteq> [])"
| "truthy (PyObject b) = b"

subsection \<open>Limits of the interpreter\<close>

text \<open>
  Python converts between integers and decimal text only up to
  \<^verbatim>\<open>sys.get_int_max_str_digits()\<close> digits, 4300 unless changed; beyond that the
  conversion raises \<^verbatim>\<open>ValueError\<close>, in \<^verbatim>\<open>json.dumps\<close> and in \<^verbatim>\<open>json.loads\<close>
  alike. Both functions also enter a recursive call for every array and object they
  descend into, and raise \<^verbatim>\<open>RecursionError\<close> when the interpreter has no call left;
  how many nested arrays and objects they can still enter depends on where they are
  called from, and is an argument of the two functions below.
\<close>

definition max_str_digits :: nat where
  "max_str_digits = 4300"

subsection \<open>\<^verbatim>\<open>json.dumps\<close>\<close>

text \<open>
  \<^verbatim>\<open>json.dumps(params)\<close> with its default arguments: ASCII output
  (\<^verbatim>\<open>ensure_ascii=True\<close>), the separators \<^verbatim>\<open>", "\<close> and \<^verbatim>\<open>": "\<close>, no indentation,
  keys in insertion order. Inside a string, every character outside \<open>' '..'~'\<close>, the
  quote and the backslash are escaped; a code point above \<open>0xFFFF\<close> becomes a surrogate
  pair.
\<close>

definition hexdigit :: "nat \<Rightarrow> nat" where
  "hexdigit d = (if d < 10 then 48 + d else 87 + d)"

definition u_escape :: "nat \<Rightarrow> pystr" where
  "u_escape n =
     [92, 117, hexdigit (n div 4096 mod 16), hexdigit (n div 256 mod 16),
      hexdigit (n div 16 mod 16), hexdigit (n mod 16)]"

definition escape_char :: "nat \<Rightarrow> pystr" where
  "escape_char c =
     (if c = 34 then [92, 34]
      else if c = 92 then [92, 92]
      else if c = 10 then [92, 110]
      else if c = 13 then [92, 114]
      else if c = 9 then [92, 116]
      else if c = 12 then [92, 102]
      else if c = 8 then [92, 98]
      else if 32 \<le> c \<and> c \<le> 126 then [c]
      else if c < 65536 then u_escape c
      else u_escape (55296 + (c - 65536) div 1024) @ u_escape (56320 + (c - 65536) mod 1024))"

definition py_encode_basestring_ascii :: "pystr \<Rightarrow> pystr" where
  "py_encode_basestring_ascii s = 34 # concat (map escape_char s) @ [34]"

text \<open>
  \<^verbatim>\<open>str(n)\<close> for an integer: decimal digits, with a minus sign when negative;
  \<open>int_digits\<close> is the number of the digits.
\<close>

fun dec :: "nat \<Rightarrow> pystr" where
  "dec n = (if n < 10 then [48 + n] else dec (n div 10) @ [48 + n mod 10])"

declare dec.simps [simp del]

definition int_repr :: "int \<Rightarrow> pystr" where
  "int_repr i = (if i < 0 then 45 # dec (nat (- i)) else dec (nat i))"

definition int_digits :: "int \<Rightarrow> nat" where
  "int_digits i = length (dec (nat \<bar>i\<bar>))"

fun join :: "pystr \<Rightarrow> pystr list \<Rightarrow> pystr" where
  "join sep [] = []"
| "join sep [x] = x"
| "join sep (x # y # ys) = x @ sep @ join sep (y # ys)"

text \<open>The items of a container are encoded in order; the first failure is the outcome.\<close>

fun collect :: "(failure + 'a) list \<Rightarrow> failure + 'a list" where
  "collect [] = Inr []"
| "collect (Inl e # xs) = Inl e"
| "collect (Inr x # xs) = (case collect xs of Inl e \<Rightarrow> Inl e | Inr ys \<Rightarrow> Inr (x # ys))"

text \<open>
  The encoder. Its first argument is the number of nested arrays and objects it can
  still enter. An object that is none of the JSON types raises \<^verbatim>\<open>TypeError\<close>
  ("Object of type ... is not JSON serializable").
\<close>

fun encode_obj :: "nat \<Rightarrow> pyval \<Rightarrow> failure + pystr" where
  "encode_obj d PyNone = Inr (str_of ''null'')"
| "encode_obj d (PyBool b) = Inr (if b then str_of ''true'' else str_of ''false'')"
| "encode_obj d (PyInt i) =
     (if max_str_digits < int_digits i then Inl IntegerDigits else Inr (int_repr i))"
| "encode_obj d (PyFloat t) = Inr t"
| "encode_obj d (PyStr s) = Inr (py_encode_basestring_ascii s)"
| "encode_obj d (PyList vs) =
     (if d = 0 then Inl RecursionLimit
      else case collect (map (encode_obj (d - 1)) vs) of
             Inl e \<Rightarrow> Inl e
           | Inr ts \<Rightarrow> Inr ([91] @ join [44, 32] ts @ [93]))"
| "encode_obj d (PyDict kvs) =
     (if d = 0 then Inl RecursionLimit
      else case collect
                  (map (\<lambda>(k, v). case encode_obj (d - 1) v of
                                    Inl e \<Rightarrow> Inl e
                                  | Inr t \<Rightarrow> Inr (py_encode_basestring_ascii k @ [58, 32] @ t))
                       kvs) of
             Inl e \<Rightarrow> Inl e
           | Inr ts \<Rightarrow> Inr ([123] @ join [44, 32] ts @ [125]))"
| "encode_obj d (PyObject b) = Inl UnencodableHyperparameters"

definition json_dumps :: "nat \<Rightarrow> pyval \<Rightarrow> failure + pystr" where
  "json_dumps d obj = encode_obj d obj"

subsection \<open>\<^verbatim>\<open>json.loads\<close>\<close>

text \<open>
  The decoder, as the scanner of the \<^verbatim>\<open>json\<close> module reads a document: whitespace is
  space, tab, newline and carriage return; strings are read strictly (no raw control
  character); a number with a fraction or an exponent, \<^verbatim>\<open>NaN\<close>, \<^verbatim>\<open>Infinity\<close> and
  \<^verbatim>\<open>-Infinity\<close> are floats; a repeated key of an object keeps its first position and
  its last value; anything but whitespace after the document is an error.
\<close>

definition is_ws :: "nat \<Rightarrow> bool" where
  "is_ws c = (c = 32 \<or> c = 9 \<or> c = 10 \<or> c = 13)"

fun skip_ws :: "pystr \<Rightarrow> pystr" where
  "skip_ws [] = []"
| "skip_ws (c # cs) = (if is_ws c then skip_ws cs else c # cs)"

definition hexval :: "nat \<Rightarrow> nat option" where
  "hexval c =
     (if 48 \<le> c \<and> c \<le> 57 then Some (c - 48)
      else if 97 \<le> c \<and> c \<le> 102 then Some (c - 87)
      else if 65 \<le> c \<and> c \<le> 70 then Some (c - 55)
      else None)"

text \<open>The four hexadecimal digits after \<^verbatim>\<open>\u\<close>.\<close>

definition hex4 :: "pystr \<Rightarrow> nat option" where
  "hex4 s =
     (case s of
        a # b # c # d # _ \<Rightarrow>
          (case (hexval a, hexval b, hexval c, hexval d) of
             (Some x3, Some x2, Some x1, Some x0) \<Rightarrow> Some (x3 * 4096 + x2 * 256 + x1 * 16 + x0)
           | _ \<Rightarrow> None)
      | _ \<Rightarrow> None)"

definition unescape :: "nat \<Rightarrow> nat option" where
  "unescape e =
     (if e = 34 then Some 34
      else if e = 92 then Some 92
      else if e = 47 then Some 47
      else if e = 98 then Some 8
      else if e = 102 then Some 12
      else if e = 110 then Some 10
      else if e = 114 then Some 13
      else if e = 116 then Some 9
      else None)"

text \<open>
  A low surrogate escape that follows a high surrogate: \<open>low_surrogate_escape s\<close> is its
  value when \<open>s\<close> starts with such an escape.
\<close>

definition low_surrogate_escape :: "pystr \<Rightarrow> nat option" where
  "low_surrogate_escape s =
     (case s of
        b # u # r \<Rightarrow>
          if b = 92 \<and> u = 117 then
            (case hex4 r of
               Some lo \<Rightarrow> if 56320 \<le> lo \<and> lo \<le> 57343 then Some lo else None
             | None \<Rightarrow> None)
          else None
      | _ \<Rightarrow> None)"

text \<open>
  \<open>scanstring s\<close> reads a string whose opening quote has been consumed: the string and
  the text after its closing quote.
\<close>

function scanstring :: "pystr \<Rightarrow> (pystr \<times> pystr) option" where
  "scanstring [] = None"
| "scanstring (c # cs) =
     (if c = 34 then Some ([], cs)
      else if c = 92 then
        (case cs of
           [] \<Rightarrow> None
         | e # r \<Rightarrow>
             if e = 117 then
               (case hex4 r of
                  None \<Rightarrow> None
                | Some hi \<Rightarrow>
                    (case (if 55296 \<le> hi \<and> hi \<le> 56319 then low_surrogate_escape (drop 4 r)
                           else None) of
                       Some lo \<Rightarrow>
                         map_option
                           (\<lambda>(x, y). ((65536 + (hi - 55296) * 1024 + (lo - 56320)) # x, y))
                           (scanstring (drop 10 r))
                     | None \<Rightarrow> map_option (\<lambda>(x, y). (hi # x, y)) (scanstring (drop 4 r))))
             else
               (case unescape e of
                  None \<Rightarrow> None
                | Some ch \<Rightarrow> map_option (\<lambda>(x, y). (ch # x, y)) (scanstring r)))
      else if c < 32 then None
      else map_option (\<lambda>(x, y). (c # x, y)) (scanstring cs))"
  by pat_completeness auto
termination
  by (relation "measure length") auto

text \<open>
  The outcome of a scan: a result, a \<^verbatim>\<open>JSONDecodeError\<close> (\<open>Fail\<close>), a
  \<^verbatim>\<open>RecursionError\<close> (\<open>Deep\<close>), the \<^verbatim>\<open>ValueError\<close> of an integer of too many
  digits (\<open>Digits\<close>), or \<open>Fuel\<close> when the scanner has run out of steps (see below).
\<close>

datatype 'a scan = Done 'a | Fail | Fuel | Deep | Digits

fun bind_scan :: "'a scan \<Rightarrow> ('a \<Rightarrow> 'b scan) \<Rightarrow> 'b scan" where
  "bind_scan (Done x) f = f x"
| "bind_scan Fail f = Fail"
| "bind_scan Fuel f = Fuel"
| "bind_scan Deep f = Deep"
| "bind_scan Digits f = Digits"

text \<open>
  A number: an optional minus sign, \<^verbatim>\<open>0\<close> or a digit \<^verbatim>\<open>1..9\<close> followed by digits, an
  optional fraction (a point and at least one digit) and an optional exponent
  (\<^verbatim>\<open>e\<close> or \<^verbatim>\<open>E\<close>, an optional sign, at least one digit). With a fraction or an exponent
  it is a float, otherwise an integer, which must not have too many digits.
\<close>

definition scan_int_part :: "pystr \<Rightarrow> (pystr \<times> pystr) option" where
  "scan_int_part s =
     (case s of
        [] \<Rightarrow> None
      | c # cs \<Rightarrow>
          if c = 48 then Some ([c], cs)
          else if 49 \<le> c \<and> c \<le> 57 then Some (c # takeWhile is_digit cs, dropWhile is_digit cs)
          else None)"

definition scan_frac :: "pystr \<Rightarrow> pystr \<times> pystr" where
  "scan_frac s =
     (case s of
        p # d # r \<Rightarrow>
          if p = 46 \<and> is_digit d then (p # d # takeWhile is_digit r, dropWhile is_digit r)
          else ([], s)
      | _ \<Rightarrow> ([], s))"

definition scan_exp :: "pystr \<Rightarrow> pystr \<times> pystr" where
  "scan_exp s =
     (case s of
        e # r \<Rightarrow>
          if e = 101 \<or> e = 69 then
            (case r of
               g # d # r' \<Rightarrow>
                 if (g = 45 \<or> g = 43) \<and> is_digit d
                 then (e # g # d # takeWhile is_digit r', dropWhile is_digit r')
                 else if is_digit g then (e # takeWhile is_digit r, dropWhile is_digit r)
                 else ([], s)
             | [g] \<Rightarrow> if is_digit g then ([e, g], []) else ([], s)
             | [] \<Rightarrow> ([], s))
          else ([], s)
      | [] \<Rightarrow> ([], s))"

definition match_number :: "pystr \<Rightarrow> (pyval \<times> pystr) scan" where
  "match_number s =
     (let (sign, s0) = (case s of c # cs \<Rightarrow> if c = 45 then ([c], cs) else ([], s) | [] \<Rightarrow> ([], s))
      in case scan_int_part s0 of
           None \<Rightarrow> Fail
         | Some (ip, s1) \<Rightarrow>
             (let (fp, s2) = scan_frac s1; (ep, s3) = scan_exp s2
              in if fp = [] \<and> ep = []
                 then (if max_str_digits < length ip then Digits
                       else Done (PyInt (if sign = [] then int (digits_val 0 ip)
                                         else - int (digits_val 0 ip)), s3))
                 else Done (PyFloat (sign @ ip @ fp @ ep), s3)))"

text \<open>\<open>strip_prefix p s\<close> is the rest of \<open>s\<close> when \<open>s\<close> starts with \<open>p\<close>.\<close>

fun strip_prefix :: "pystr \<Rightarrow> pystr \<Rightarrow> pystr option" where
  "strip_prefix [] s = Some s"
| "strip_prefix (p # ps) [] = None"
| "strip_prefix (p # ps) (c # cs) = (if p = c then strip_prefix ps cs else None)"

text \<open>
  Assigning the items of an object in reading order, as \<^verbatim>\<open>dict\<close> does: a key seen
  before keeps its place and takes the new value.
\<close>

fun dict_setitem :: "pystr \<Rightarrow> pyval \<Rightarrow> (pystr \<times> pyval) list \<Rightarrow> (pystr \<times> pyval) list" where
  "dict_setitem k v [] = [(k, v)]"
| "dict_setitem k v ((k', v') # d) =
     (if k' = k then (k, v) # d else (k', v') # dict_setitem k v d)"

definition dict_of_pairs :: "(pystr \<times> pyval) list \<Rightarrow> (pystr \<times> pyval) list" where
  "dict_of_pairs ps = fold (\<lambda>(k, v) d. dict_setitem k v d) ps []"

text \<open>
  The scanner descends into arrays and objects. Its second argument is the number of
  nested arrays and objects it can still enter. Its first argument bounds the number of
  calls, which makes the three functions total: two nested calls consume at least one
  character, and \<open>json_loads\<close> allows more than twice as many calls as the text has
  characters, so that \<open>Fuel\<close> is never its outcome (\<open>json_loads_fuel\<close> below).
\<close>

fun scan_once :: "nat \<Rightarrow> nat \<Rightarrow> pystr \<Rightarrow> (pyval \<times> pystr) scan"
  and parse_array :: "nat \<Rightarrow> nat \<Rightarrow> pystr \<Rightarrow> (pyval list \<times> pystr) scan"
  and parse_object :: "nat \<Rightarrow> nat \<Rightarrow> pystr \<Rightarrow> ((pystr \<times> pyval) list \<times> pystr) scan"
where
  "scan_once 0 d s = Fuel"
| "scan_once (Suc n) d [] = Fail"
| "scan_once (Suc n) d (c # cs) =
     (if c = 34 then
        (case scanstring cs of None \<Rightarrow> Fail | Some (x, r) \<Rightarrow> Done (PyStr x, r))
      else if c = 123 then
        (if d = 0 then Deep
         else case skip_ws cs of
                [] \<Rightarrow> Fail
              | e # r \<Rightarrow>
                  if e = 125 then Done (PyDict [], r)
                  else bind_scan (parse_object n (d - 1) (e # r))
                         (\<lambda>(ps, r'). Done (PyDict (dict_of_pairs ps), r')))
      else if c = 91 then
        (if d = 0 then Deep
         else case skip_ws cs of
                [] \<Rightarrow> Fail
              | e # r \<Rightarrow>
                  if e = 93 then Done (PyList [], r)
                  else bind_scan (parse_array n (d - 1) (e # r))
                         (\<lambda>(vs, r'). Done (PyList vs, r')))
      else if c = 110 then
        (case strip_prefix (str_of ''null'') (c # cs) of
           Some r \<Rightarrow> Done (PyNone, r) | None \<Rightarrow> Fail)
      else if c = 116 then
        (case strip_prefix (str_of ''true'') (c # cs) of
           Some r \<Rightarrow> Done (PyBool True, r) | None \<Rightarrow> Fail)
      else if c = 102 then
        (case strip_prefix (str_of ''false'') (c # cs) of
           Some r \<Rightarrow> Done (PyBool False, r) | None \<Rightarrow> Fail)
      else if c = 78 then
        (case strip_prefix (str_of ''NaN'') (c # cs) of
           Some r \<Rightarrow> Done (PyFloat (str_of ''NaN''), r) | None \<Rightarrow> Fail)
      else if c = 73 then
        (case strip_prefix (str_of ''Infinity'') (c # cs) of
           Some r \<Rightarrow> Done (PyFloat (str_of ''Infinity''), r) | None \<Rightarrow> Fail)
      else
        (case (if c = 45 then strip_prefix (str_of ''-Infinity'') (c # cs) else None) of
           Some r \<Rightarrow> Done (PyFloat (str_of ''-Infinity''), r)
         | None \<Rightarrow> match_number (c # cs)))"
| "parse_array 0 d s = Fuel"
| "parse_array (Suc n) d s =
     bind_scan (scan_once n d s)
       (\<lambda>(v, r). case skip_ws r of
                    [] \<Rightarrow> Fail
                  | e # r' \<Rightarrow>
                      if e = 93 then Done ([v], r')
                      else if e = 44 then
                        bind_scan (parse_array n d (skip_ws r'))
                          (\<lambda>(vs, r''). Done (v # vs, r''))
                      else Fail)"
| "parse_object 0 d s = Fuel"
| "parse_object (Suc n) d s =
     (case s of
        [] \<Rightarrow> Fail
      | q # s1 \<Rightarrow>
          if q \<noteq> 34 then Fail
          else
            (case scanstring s1 of
               None \<Rightarrow> Fail
             | Some (k, s2) \<Rightarrow>
                 (case skip_ws s2 of
                    [] \<Rightarrow> Fail
                  | e # s3 \<Rightarrow>
                      if e \<noteq> 58 then Fail
                      else
                        bind_scan (scan_once n d (skip_ws s3))
                          (\<lambda>(v, s4). case skip_ws s4 of
                                       [] \<Rightarrow> Fail
                                     | e' # s5 \<Rightarrow>
                                         if e' = 125 then Done ([(k, v)], s5)
                                         else if e' = 44 then
                                           bind_scan (parse_object n d (skip_ws s5))
                                             (\<lambda>(ps, s6). Done ((k, v) # ps, s6))
                                         else Fail))))"

definition json_loads :: "nat \<Rightarrow> pystr \<Rightarrow> failure + pyval" where
  "json_loads d s =
     (case scan_once (Suc (2 * length s)) d (skip_ws s) of
        Done (v, r) \<Rightarrow> if skip_ws r = [] then Inr v else Inl MalformedHeader
      | Fail \<Rightarrow> Inl MalformedHeader
      | Fuel \<Rightarrow> Inl ScannerBound
      | Deep \<Rightarrow> Inl RecursionLimit
      | Digits \<Rightarrow> Inl IntegerDigits)"

subsection \<open>Files and the world\<close>

text \<open>
  The world outside the program: the file system, which maps a file name to the content
  of the file; the names that the operating system lets the program open for writing (the
  directory exists, the name is not a directory, the permissions allow it); the numbers of
  nested arrays and objects that \<^verbatim>\<open>json.dumps\<close> and \<^verbatim>\<open>json.loads\<close> can enter when
  \<^verbatim>\<open>save\<close> and \<^verbatim>\<open>load\<close> call them; and the record, in order, of every opening,
  write, read and closing of a file and of every call of the constructor with its key
  (\<^verbatim>\<open>jr.PRNGKey(seed)\<close>) and its keyword arguments.
\<close>

datatype key = PRNGKey int

datatype mode = RB | WB

datatype event =
    Opened string mode
  | Wrote string "byte list"
  | Read string "byte list"
  | Closed string
  | Called key pyval

record world =
  files :: "string \<Rightarrow> byte list option"
  writable :: "string \<Rightarrow> bool"
  dumps_depth :: nat
  loads_depth :: nat
  events :: "event list"

text \<open>
  \<^verbatim>\<open>open\<close> raises for the empty name and for a name with a null character, whatever
  the file system holds.
\<close>

definition valid_name :: "string \<Rightarrow> bool" where
  "valid_name filename = (filename \<noteq> [] \<and> CHR 0x00 \<notin> set filename)"

text \<open>
  \<^verbatim>\<open>open(filename, "wb")\<close> raises when the name cannot be opened for writing;
  otherwise it creates the file or truncates it, at once. No lock is taken: other open
  handles on the same file do not make it fail. The handle \<open>f\<close> of a file being written
  is the list of the bytes written so far; leaving the \<^verbatim>\<open>with\<close> block, normally or
  by an exception, flushes them and closes the file. Writing to an open file is taken to
  succeed.
\<close>

definition open_wb :: "string \<Rightarrow> world \<Rightarrow> failure + world" where
  "open_wb filename w =
     (if valid_name filename \<and> writable w filename
      then Inr (w\<lparr>files := (files w)(filename \<mapsto> []),
                  events := events w @ [Opened filename WB]\<rparr>)
      else Inl OpenFailed)"

definition f_write :: "string \<Rightarrow> byte list \<Rightarrow> byte list \<Rightarrow> world \<Rightarrow> byte list \<times> world" where
  "f_write filename f bs w = (f @ bs, w\<lparr>events := events w @ [Wrote filename bs]\<rparr>)"

definition close_wb :: "string \<Rightarrow> byte list \<Rightarrow> world \<Rightarrow> world" where
  "close_wb filename f w =
     w\<lparr>files := (files w)(filename \<mapsto> f), events := events w @ [Closed filename]\<rparr>"

text \<open>
  \<^verbatim>\<open>open(filename, "rb")\<close> raises when there is no file of that name that can be
  read. The handle of a file being read is the list of the bytes not read yet.
  \<^verbatim>\<open>f.readline()\<close> returns the bytes up to and including the first newline (all of
  them when there is none) and leaves the rest.
\<close>

definition open_rb :: "string \<Rightarrow> world \<Rightarrow> failure + byte list \<times> world" where
  "open_rb filename w =
     (if valid_name filename then
        (case files w filename of
           None \<Rightarrow> Inl OpenFailed
         | Some content \<Rightarrow> Inr (content, w\<lparr>events := events w @ [Opened filename RB]\<rparr>))
      else Inl OpenFailed)"

definition close_rb :: "string \<Rightarrow> world \<Rightarrow> world" where
  "close_rb filename w = w\<lparr>events := events w @ [Closed filename]\<rparr>"

fun readline :: "byte list \<Rightarrow> byte list \<times> byte list" where
  "readline [] = ([], [])"
| "readline (b # bs) =
     (if b = 10 then ([b], bs) else (let (line, rest) = readline bs in (b # line, rest)))"

definition f_readline :: "string \<Rightarrow> byte list \<Rightarrow> world \<Rightarrow> byte list \<times> byte list \<times> world" where
  "f_readline filename f w =
     (let (line, rest) = readline f
      in (line, rest, w\<lparr>events := events w @ [Read filename line]\<rparr>))"

subsection \<open>The model: \<^verbatim>\<open>make\<close>\<close>

text \<open>
  A weight is a 32-bit float, kept as its bit pattern: two weights are bitwise identical
  when the words are equal. A linear layer has a weight matrix (a list of rows) and a bias
  vector; the model is the list of its layers and its activation function.
\<close>

type_synonym f32 = "32 word"

record linear =
  weight :: "f32 list list"
  bias :: "f32 list"

datatype activation = Tanh | Relu

record mlp =
  layers :: "linear list"
  activation :: activation

text \<open>
  The initial value of every weight is drawn from the key by JAX; the draw is a parameter
  \<open>rng\<close> of the model, which gives the value of element \<open>i\<close> of leaf \<open>l\<close> under a
  key. Nothing is assumed of it.
\<close>

type_synonym prng = "key \<Rightarrow> nat \<Rightarrow> nat \<Rightarrow> f32"

text \<open>
  Modelled from the spec: \<^verbatim>\<open>eqx.nn.Linear\<close> and \<^verbatim>\<open>eqx.nn.MLP\<close> are code of the
  repository that is not among the sources. The spec asks of the constructor that the
  hyperparameters alone fix the structure of the model (the count, order and shapes of its
  leaves). The layers are those of the library's multi-layer perceptron: \<open>depth\<close> hidden
  layers of \<open>width_size\<close> units between \<open>in_size\<close> inputs and \<open>out_size\<close> outputs, that
  is \<open>depth + 1\<close> linear layers, each with a weight of shape (outputs, inputs) and a
  bias; the sizes must be non-negative integers, anything else raises.
\<close>

definition Linear :: "prng \<Rightarrow> key \<Rightarrow> nat \<Rightarrow> nat \<Rightarrow> nat \<Rightarrow> linear" where
  "Linear rng k i in_features out_features =
     \<lparr>weight = map (\<lambda>r. map (\<lambda>c. rng k (2 * i) (r * in_features + c)) [0..<in_features])
                 [0..<out_features],
      bias = map (\<lambda>r. rng k (2 * i + 1) r) [0..<out_features]\<rparr>"

definition mlp_layers :: "prng \<Rightarrow> key \<Rightarrow> nat \<Rightarrow> nat \<Rightarrow> nat \<Rightarrow> nat \<Rightarrow> linear list" where
  "mlp_layers rng k in_size out_size width_size depth =
     (if depth = 0 then [Linear rng k 0 in_size out_size]
      else Linear rng k 0 in_size width_size
           # map (\<lambda>i. Linear rng k i width_size width_size) [1..<depth]
           @ [Linear rng k depth width_size out_size])"

definition MLP :: "prng \<Rightarrow> pyval \<Rightarrow> pyval \<Rightarrow> pyval \<Rightarrow> pyval \<Rightarrow> activation \<Rightarrow> key \<Rightarrow> failure + mlp"
  where
  "MLP rng in_size out_size width_size depth act k =
     (case (in_size, out_size, width_size, depth) of
        (PyInt i, PyInt out, PyInt wd, PyInt d) \<Rightarrow>
          if 0 \<le> i \<and> 0 \<le> out \<and> 0 \<le> wd \<and> 0 \<le> d
          then Inr \<lparr>layers = mlp_layers rng k (nat i) (nat out) (nat wd) (nat d),
                    activation = act\<rparr>
          else Inl ConstructorError
      | _ \<Rightarrow> Inl ConstructorError)"

text \<open>
  \<^verbatim>\<open>make(*, key, size, width, depth, use_tanh=False)\<close>: the activation is chosen by the
  truth value of \<^verbatim>\<open>use_tanh\<close>, and the model has one output.
\<close>

definition make :: "prng \<Rightarrow> key \<Rightarrow> pyval \<Rightarrow> pyval \<Rightarrow> pyval \<Rightarrow> pyval \<Rightarrow> failure + mlp" where
  "make rng k size' width depth use_tanh =
     (let act = (if truthy use_tanh then Tanh else Relu)
      in MLP rng size' (PyInt 1) width depth act k)"

text \<open>
  The call \<^verbatim>\<open>make(key=k, **params)\<close>. It raises \<^verbatim>\<open>TypeError\<close> when \<^verbatim>\<open>params\<close>
  is not a dictionary, when it has a key that is not a parameter of \<^verbatim>\<open>make\<close> (or is
  \<^verbatim>\<open>key\<close>, given twice then), and when one of \<^verbatim>\<open>size\<close>, \<^verbatim>\<open>width\<close>,
  \<^verbatim>\<open>depth\<close> is missing.
\<close>

definition make_kwargs :: "prng \<Rightarrow> key \<Rightarrow> pyval \<Rightarrow> failure + mlp" where
  "make_kwargs rng k params =
     (case params of
        PyDict kw \<Rightarrow>
          if list_all (\<lambda>name. name \<in> set [str_of ''size'', str_of ''width'', str_of ''depth'',
                                          str_of ''use_tanh'']) (map fst kw)
          then
            (case (map_of kw (str_of ''size''), map_of kw (str_of ''width''),
                   map_of kw (str_of ''depth'')) of
               (Some sz, Some wd, Some dp) \<Rightarrow>
                 make rng k sz wd dp
                   (case map_of kw (str_of ''use_tanh'') of None \<Rightarrow> PyBool False | Some u \<Rightarrow> u)
             | _ \<Rightarrow> Inl ConstructorError)
          else Inl ConstructorError
      | _ \<Rightarrow> Inl ConstructorError)"

subsection \<open>Serialising the leaves\<close>

text \<open>
  The leaves of a model in traversal order: for each layer in turn, its weight row by row
  and then its bias.
\<close>

definition leaf_words :: "mlp \<Rightarrow> f32 list" where
  "leaf_words m = concat (map (\<lambda>l. concat (weight l) @ bias l) (layers m))"

text \<open>The four bytes of a weight, least significant first, and the weight of four bytes.\<close>

definition f32_bytes :: "f32 \<Rightarrow> byte list" where
  "f32_bytes x = [ucast x, ucast (drop_bit 8 x), ucast (drop_bit 16 x), ucast (drop_bit 24 x)]"

definition f32_of_bytes :: "byte \<Rightarrow> byte \<Rightarrow> byte \<Rightarrow> byte \<Rightarrow> f32" where
  "f32_of_bytes b0 b1 b2 b3 =
     ucast b0 OR push_bit 8 (ucast b1) OR push_bit 16 (ucast b2) OR push_bit 24 (ucast b3)"

fun words_of_bytes :: "byte list \<Rightarrow> f32 list" where
  "words_of_bytes (b0 # b1 # b2 # b3 # bs) = f32_of_bytes b0 b1 b2 b3 # words_of_bytes bs"
| "words_of_bytes _ = []"

text \<open>
  Modelled from the spec: \<^verbatim>\<open>eqx.tree_serialise_leaves\<close> is code of the repository
  that is not among the sources. By the spec it writes "the raw serialised bytes of all
  weight leaves, in deterministic traversal order, with no delimiters between them" into
  the sink \<open>f\<close>, after what the sink already holds. \<open>leaf_bytes\<close> are those bytes.
\<close>

definition leaf_bytes :: "mlp \<Rightarrow> byte list" where
  "leaf_bytes m = concat (map f32_bytes (leaf_words m))"

definition tree_serialise_leaves :: "string \<Rightarrow> byte list \<Rightarrow> mlp \<Rightarrow> world \<Rightarrow> byte list \<times> world"
  where
  "tree_serialise_leaves filename f m w = f_write filename f (leaf_bytes m) w"

text \<open>
  Filling a skeleton: every row of every weight and every bias takes as many values from
  the stream as it has elements.
\<close>

fun fill_rows :: "f32 list list \<Rightarrow> f32 list \<Rightarrow> f32 list list \<times> f32 list" where
  "fill_rows [] ws = ([], ws)"
| "fill_rows (row # rows) ws =
     (let (rs, ws') = fill_rows rows (drop (length row) ws)
      in (take (length row) ws # rs, ws'))"

definition fill_linear :: "linear \<Rightarrow> f32 list \<Rightarrow> linear \<times> f32 list" where
  "fill_linear l ws =
     (let (wt, ws') = fill_rows (weight l) ws
      in (\<lparr>weight = wt, bias = take (length (bias l)) ws'\<rparr>, drop (length (bias l)) ws'))"

fun fill_layers :: "linear list \<Rightarrow> f32 list \<Rightarrow> linear list" where
  "fill_layers [] ws = []"
| "fill_layers (l # ls) ws = (let (l', ws') = fill_linear l ws in l' # fill_layers ls ws')"

text \<open>
  Modelled from the spec: \<^verbatim>\<open>eqx.tree_deserialise_leaves\<close> is code of the repository
  that is not among the sources. By the spec it reads "the remaining bytes of the source"
  and assigns them, "in the same deterministic traversal order used by the writer, into
  the skeleton's leaves, replacing their placeholder contents"; it "fails if the remaining
  byte count does not match what the skeleton's leaf layout expects". The spec leaves open
  how the mismatch is detected; here a source that ends early is a \<open>TruncatedStream\<close>
  and one with bytes left over is a \<open>ShapeMismatch\<close>. \<open>fill_from\<close> is the outcome for
  the bytes \<open>f\<close> that remain.
\<close>

definition fill_from :: "byte list \<Rightarrow> mlp \<Rightarrow> failure + mlp" where
  "fill_from f like =
     (let expected = 4 * length (leaf_words like)
      in if length f < expected then Inl TruncatedStream
         else if expected < length f then Inl ShapeMismatch
         else Inr (like\<lparr>layers := fill_layers (layers like) (words_of_bytes f)\<rparr>))"

definition tree_deserialise_leaves :: "string \<Rightarrow> byte list \<Rightarrow> mlp \<Rightarrow> world \<Rightarrow> (failure + mlp) \<times> world"
  where
  "tree_deserialise_leaves filename f like w =
     (fill_from f like, w\<lparr>events := events w @ [Read filename f]\<rparr>)"

subsection \<open>\<^verbatim>\<open>save\<close> and \<^verbatim>\<open>load\<close>\<close>

text \<open>
  \<^verbatim>\<open>
  def save(filename, params, model):
      with open(filename, "wb") as f:
          param_str = json.dumps(params)
          f.write((param_str + "\n").encode())
          eqx.tree_serialise_leaves(f, model)
  \<close>
  \<open>save_body\<close> is the block of the \<^verbatim>\<open>with\<close> statement: its outcome, the handle
  and the world when it is left.
\<close>

definition save_body ::
  "string \<Rightarrow> pyval \<Rightarrow> mlp \<Rightarrow> byte list \<Rightarrow> world \<Rightarrow> (failure + unit) \<times> byte list \<times> world"
  where
  "save_body filename params model f w =
     (case json_dumps (dumps_depth w) params of
        Inl e \<Rightarrow> (Inl e, f, w)
      | Inr param_str \<Rightarrow>
          (case str_encode (param_str @ [10]) of
             Inl e \<Rightarrow> (Inl e, f, w)
           | Inr line \<Rightarrow>
               (let (f1, w1) = f_write filename f line w;
                    (f2, w2) = tree_serialise_leaves filename f1 model w1
                in (Inr (), f2, w2))))"

definition save :: "string \<Rightarrow> pyval \<Rightarrow> mlp \<Rightarrow> world \<Rightarrow> (failure + unit) \<times> world" where
  "save filename params model w =
     (case open_wb filename w of
        Inl e \<Rightarrow> (Inl e, w)
      | Inr w1 \<Rightarrow>
          (let (r, f, w2) = save_body filename params model [] w1
           in (r, close_wb filename f w2)))"

text \<open>
  \<^verbatim>\<open>
  def load(filename):
      with open(filename, "rb") as f:
          params = json.loads(f.readline().decode())
          model = make(key=jr.PRNGKey(0), **params)
          return eqx.tree_deserialise_leaves(f, model)
  \<close>
  \<open>read_params\<close> is the first statement of the block: the value of \<^verbatim>\<open>params\<close>, the
  handle and the world after the line has been read. The call of \<^verbatim>\<open>make\<close> is
  recorded when it is made, whether or not its arguments bind.
\<close>

definition read_params ::
  "string \<Rightarrow> byte list \<Rightarrow> world \<Rightarrow> (failure + pyval) \<times> byte list \<times> world" where
  "read_params filename f w =
     (let (line, f', w') = f_readline filename f w
      in case bytes_decode line of
           Inl e \<Rightarrow> (Inl e, f', w')
         | Inr text \<Rightarrow> (json_loads (loads_depth w') text, f', w'))"

definition load_body :: "prng \<Rightarrow> string \<Rightarrow> byte list \<Rightarrow> world \<Rightarrow> (failure + mlp) \<times> world" where
  "load_body rng filename f w =
     (case read_params filename f w of
        (Inl e, f', w') \<Rightarrow> (Inl e, w')
      | (Inr params, f', w') \<Rightarrow>
          (let w'' = w'\<lparr>events := events w' @ [Called (PRNGKey 0) params]\<rparr>
           in case make_kwargs rng (PRNGKey 0) params of
                Inl e \<Rightarrow> (Inl e, w'')
              | Inr model \<Rightarrow> tree_deserialise_leaves filename f' model w''))"

definition load :: "prng \<Rightarrow> string \<Rightarrow> world \<Rightarrow> (failure + mlp) \<times> world" where
  "load rng filename w =
     (case open_rb filename w of
        Inl e \<Rightarrow> (Inl e, w)
      | Inr (f, w1) \<Rightarrow>
          (let (r, w2) = load_body rng filename f w1
           in (r, close_rb filename w2)))"

subsection \<open>Notions used in the statements\<close>

text \<open>
  The leaf structure of a model: the row lengths of the weight and the length of the bias
  of each layer, in order. \<open>layer_size\<close> counts the elements of a layer.
\<close>

definition layer_shape :: "linear \<Rightarrow> nat list \<times> nat" where
  "layer_shape l = (map length (weight l), length (bias l))"

definition shape :: "mlp \<Rightarrow> (nat list \<times> nat) list" where
  "shape m = map layer_shape (layers m)"

definition layer_size :: "linear \<Rightarrow> nat" where
  "layer_size l = sum_list (map length (weight l)) + length (bias l)"


text \<open>
  A value is within the limits of the interpreter when none of its integers has more than
  \<open>max_str_digits\<close> digits and its arrays and objects are nested at most \<open>d\<close> deep.
\<close>

fun within_limits :: "nat \<Rightarrow> pyval \<Rightarrow> bool" where
  "within_limits d (PyInt i) = (int_digits i \<le> max_str_digits)"
| "within_limits d (PyList vs) = (d \<noteq> 0 \<and> list_all (within_limits (d - 1)) vs)"
| "within_limits d (PyDict kvs) =
     (d \<noteq> 0 \<and> list_all (\<lambda>kv. within_limits (d - 1) (snd kv)) kvs)"
| "within_limits d _ = True"

text \<open>
  The values for which the round trip through JSON is stated: \<^verbatim>\<open>None\<close>, booleans,
  integers, strings of Unicode scalar values (no surrogate code points), and arrays and
  dictionaries of such values, a dictionary having distinct keys as every \<^verbatim>\<open>dict\<close>
  has. Floats are left out: floating-point arithmetic is not embedded.
\<close>

definition scalar :: "nat \<Rightarrow> bool" where
  "scalar c = (c < 55296 \<or> (57344 \<le> c \<and> c < 1114112))"

fun plain :: "pyval \<Rightarrow> bool" where
  "plain PyNone = True"
| "plain (PyBool b) = True"
| "plain (PyInt i) = True"
| "plain (PyFloat t) = False"
| "plain (PyStr s) = list_all scalar s"
| "plain (PyList vs) = list_all plain vs"
| "plain (PyDict kvs) =
     (distinct (map fst kvs) \<and> list_all (\<lambda>kv. list_all scalar (fst kv) \<and> plain (snd kv)) kvs)"
| "plain (PyObject b) = False"

definition representable :: "nat \<Rightarrow> pyval \<Rightarrow> bool" where
  "representable d v = (plain v \<and> within_limits d v)"

text \<open>Printable ASCII characters: a text of them has no newline and is its own UTF-8.\<close>

definition printable :: "nat \<Rightarrow> bool" where
  "printable c = (32 \<le> c \<and> c \<le> 126)"

subsection \<open>The grammar of JSON\<close>











subsection \<open>Auxiliary notions\<close>

text \<open>
  The text that the encoder writes for a value, when it writes one; what can follow a
  value in a document (nothing, a comma, a closing bracket or whitespace); and how the
  text of a value starts (not with whitespace or a closing bracket).
\<close>

fun json_text :: "pyval \<Rightarrow> pystr" where
  "json_text PyNone = str_of ''null''"
| "json_text (PyBool b) = (if b then str_of ''true'' else str_of ''false'')"
| "json_text (PyInt i) = int_repr i"
| "json_text (PyFloat t) = t"
| "json_text (PyStr s) = py_encode_basestring_ascii s"
| "json_text (PyList vs) = [91] @ join [44, 32] (map json_text vs) @ [93]"
| "json_text (PyDict kvs) =
     [123] @ join [44, 32]
               (map (\<lambda>kv. py_encode_basestring_ascii (fst kv) @ [58, 32] @ json_text (snd kv)) kvs)
     @ [125]"
| "json_text (PyObject b) = []"

abbreviation member_text :: "pystr \<times> pyval \<Rightarrow> pystr" where
  "member_text \<equiv> \<lambda>kv. py_encode_basestring_ascii (fst kv) @ [58, 32] @ json_text (snd kv)"

fun follows :: "pystr \<Rightarrow> bool" where
  "follows [] = True"
| "follows (c # cs) = (c = 44 \<or> c = 93 \<or> c = 125 \<or> is_ws c)"

definition starts_value :: "pystr \<Rightarrow> bool" where
  "starts_value t = (case t of [] \<Rightarrow> False | c # cs \<Rightarrow> \<not> is_ws c \<and> c \<noteq> 93 \<and> c \<noteq> 125)"

subsection \<open>The steps of the reader\<close>

text \<open>
  The procedure that the specification gives for the reader, step by step, on the first
  line of the source and on the bytes after it: parse the line as JSON into the
  hyperparameters, call the constructor with them (and the key \<^verbatim>\<open>PRNGKey(0)\<close>), fill
  the skeleton from the remaining bytes. \<open>d\<close> is the depth that the decoder can
  descend to.
\<close>

definition reader_steps :: "prng \<Rightarrow> nat \<Rightarrow> byte list \<Rightarrow> byte list \<Rightarrow> failure + mlp" where
  "reader_steps rng d line rest =
     (case bytes_decode line of
        Inl e \<Rightarrow> Inl e
      | Inr s \<Rightarrow>
          (case json_loads d s of
             Inl e \<Rightarrow> Inl e
           | Inr params \<Rightarrow>
               (case make_kwargs rng (PRNGKey 0) params of
                  Inl e \<Rightarrow> Inl e
                | Inr skeleton \<Rightarrow> fill_from rest skeleton)))"

subsection \<open>Handles\<close>

text \<open>
  What may happen between the opening and the closing of the file \<open>filename\<close> in one
  operation: writes to it, reads from it, and calls of the constructor; no opening and
  no closing. \<open>open_count filename es\<close> is the number of handles on the file that the
  events \<open>es\<close> leave open: openings less closings.
\<close>

fun block_event :: "string \<Rightarrow> event \<Rightarrow> bool" where
  "block_event filename (Wrote n bs) = (n = filename)"
| "block_event filename (Read n bs) = (n = filename)"
| "block_event filename (Called k params) = True"
| "block_event filename (Opened n m) = False"
| "block_event filename (Closed n) = False"

fun handle_change :: "string \<Rightarrow> event \<Rightarrow> int" where
  "handle_change filename (Opened n m) = (if n = filename then 1 else 0)"
| "handle_change filename (Closed n) = (if n = filename then - 1 else 0)"
| "handle_change filename _ = 0"

definition open_count :: "string \<Rightarrow> event list \<Rightarrow> int" where
  "open_count filename es = sum_list (map (handle_change filename) es)"

text \<open>The bytes that the events write to the file, in order.\<close>

fun written :: "string \<Rightarrow> event list \<Rightarrow> byte list" where
  "written filename [] = []"
| "written filename (Wrote n bs # es) =
     (if n = filename then bs @ written filename es else written filename es)"
| "written filename (e # es) = written filename es"

text \<open>The bytes that the events read from the file, in order.\<close>

fun bytes_read :: "string \<Rightarrow> event list \<Rightarrow> byte list" where
  "bytes_read filename [] = []"
| "bytes_read filename (Read n bs # es) =
     (if n = filename then bs @ bytes_read filename es else bytes_read filename es)"
| "bytes_read filename (e # es) = bytes_read filename es"

subsection \<open>Examples\<close>

text \<open>
  The hyperparameters of the notebook, \<^verbatim>\<open>{"size": 5, "width": 10, "depth": 3,
  "use_tanh": True}\<close>; a generator whose every draw is zero; a world with no file, where
  every valid name can be opened for writing; and the model that the notebook makes,
  under that generator.
\<close>

definition hyperparameters :: pyval where
  "hyperparameters =
     PyDict [(str_of ''size'', PyInt 5), (str_of ''width'', PyInt 10), (str_of ''depth'', PyInt 3),
             (str_of ''use_tanh'', PyBool True)]"

definition zero_rng :: prng where
  "zero_rng k l i = 0"

definition fresh_world :: world where
  "fresh_world =
     \<lparr>files = Map.empty, writable = (\<lambda>n. True), dumps_depth = 900, loads_depth = 900,
      events = []\<rparr>"

definition example_model :: mlp where
  "example_model = \<lparr>layers = mlp_layers zero_rng (PRNGKey 0) 5 1 10 3, activation = Tanh\<rparr>"

text \<open>
  A model of one input and no hidden layer, with weight \<open>1.0\<close> and bias \<open>2.0\<close>; its
  hyperparameters; and its file: the line \<^verbatim>\<open>{"size": 1, "width": 1, "depth": 0}\<close>, a
  newline, and the eight bytes of the two floats.
\<close>

definition small_hyperparameters :: pyval where
  "small_hyperparameters =
     PyDict [(str_of ''size'', PyInt 1), (str_of ''width'', PyInt 1), (str_of ''depth'', PyInt 0)]"

definition small_model :: mlp where
  "small_model = \<lparr>layers = [\<lparr>weight = [[0x3F800000]], bias = [0x40000000]\<rparr>], activation = Relu\<rparr>"

definition small_header :: "byte list" where
  "small_header =
     [123, 34, 115, 105, 122, 101, 34, 58, 32, 49, 44, 32,
      34, 119, 105, 100, 116, 104, 34, 58, 32, 49, 44, 32,
      34, 100, 101, 112, 116, 104, 34, 58, 32, 48, 125]"

definition good_world :: world where
  "good_world =
     fresh_world\<lparr>files := Map.empty(''multipart_serialised.eqx'' \<mapsto>
        small_header @ 10 # [0, 0, 128, 63, 0, 0, 0, 64])\<rparr>"

text \<open>
  A file that holds three bytes before \<^verbatim>\<open>save\<close> is called, and hyperparameters with
  a value that JSON cannot encode.
\<close>

definition old_world :: world where
  "old_world = fresh_world\<lparr>files := Map.empty(''multipart_serialised.eqx'' \<mapsto> [1, 2, 3])\<rparr>"

definition unencodable_hyperparameters :: pyval where
  "unencodable_hyperparameters = PyDict [(str_of ''size'', PyObject True)]"

text \<open>
  The same file while another handle on it is open: a reader has opened it and has not
  closed it yet.
\<close>

definition busy_world :: world where
  "busy_world = old_world\<lparr>events := [Opened ''multipart_serialised.eqx'' RB]\<rparr>"




text \<open>
  A model of one layer with four inputs, and hyperparameters of a model of two layers
  with as many weights in all.
\<close>

definition other_model :: mlp where
  "other_model = \<lparr>layers = [\<lparr>weight = [[1, 2, 3, 4]], bias = [5]\<rparr>], activation = Relu\<rparr>"

definition other_hyperparameters :: pyval where
  "other_hyperparameters =
     PyDict [(str_of ''size'', PyInt 2), (str_of ''width'', PyInt 1), (str_of ''depth'', PyInt 1)]"

definition other_loaded :: mlp where
  "other_loaded =
     \<lparr>layers = [\<lparr>weight = [[1, 2]], bias = [3]\<rparr>, \<lparr>weight = [[4]], bias = [5]\<rparr>],
      activation = Relu\<rparr>"

section \<open>Properties\<close>

subsection \<open>Weights and bytes\<close>

lemma f32_of_bytes_f32_bytes:
  "f32_of_bytes (ucast x) (ucast (drop_bit 8 x)) (ucast (drop_bit 16 x)) (ucast (drop_bit 24 x))
     = (x::f32)"
  unfolding f32_of_bytes_def
proof (rule bit_word_eqI)
  fix n :: nat
  assume n: "n < LENGTH(32)"
  consider "n < 8" | "8 \<le> n" "n < 16" | "16 \<le> n" "n < 24" | "24 \<le> n"
    by linarith
  then show "bit (ucast (ucast x :: byte) OR push_bit 8 (ucast (ucast (drop_bit 8 x) :: byte)) OR
        push_bit 16 (ucast (ucast (drop_bit 16 x) :: byte)) OR
        push_bit 24 (ucast (ucast (drop_bit 24 x) :: byte)) :: f32) n = bit x n"
    using n by cases (auto simp add: bit_simps)
qed

lemma f32_bytes_of_bytes:
  "f32_bytes (f32_of_bytes b0 b1 b2 b3) = [b0, b1, b2, b3]"
  unfolding f32_of_bytes_def f32_bytes_def
  apply simp
  apply (intro conjI; rule bit_word_eqI; auto simp add: bit_simps dest: bit_imp_le_length)
  done

lemma words_of_bytes_concat:
  "words_of_bytes (concat (map f32_bytes ws)) = ws"
  by (induction ws) (simp_all add: f32_bytes_def f32_of_bytes_f32_bytes)

lemma length_concat_f32_bytes:
  "length (concat (map f32_bytes ws)) = 4 * length ws"
  by (induction ws) (simp_all add: f32_bytes_def)

lemma length_words_of_bytes: "length (words_of_bytes f) = length f div 4"
  by (induction f rule: words_of_bytes.induct) simp_all

lemma bytes_of_words_of_bytes:
  "4 dvd length f \<Longrightarrow> concat (map f32_bytes (words_of_bytes f)) = f"
proof (induction f rule: words_of_bytes.induct)
  case (1 b0 b1 b2 b3 bs)
  then have "4 dvd length bs" by simp presburger
  with 1 show ?case by (simp add: f32_bytes_of_bytes)
qed (simp_all, presburger+)

subsection \<open>Filling a skeleton\<close>

lemma fill_rows_append:
  "map length rows = map length rows' \<Longrightarrow> fill_rows rows (concat rows' @ ws) = (rows', ws)"
proof (induction rows arbitrary: rows')
  case Nil
  then show ?case by simp
next
  case (Cons r rows)
  then obtain r' rs' where r': "rows' = r' # rs'" "length r = length r'"
      "map length rows = map length rs'"
    by (cases rows') auto
  with Cons.IH [of rs'] show ?case by simp
qed

lemma fill_linear_append:
  fixes l l' :: linear
  assumes "layer_shape l = layer_shape l'"
  shows "fill_linear l (concat (weight l') @ bias l' @ ws) = (l', ws)"
  using assms by (simp add: fill_linear_def layer_shape_def fill_rows_append)

lemma fill_layers_append:
  fixes ls ls' :: "linear list"
  shows "map layer_shape ls = map layer_shape ls' \<Longrightarrow>
    fill_layers ls (concat (map (\<lambda>l. concat (weight l) @ bias l) ls') @ ws) = ls'"
proof (induction ls arbitrary: ls' ws)
  case Nil
  then show ?case by simp
next
  case (Cons l ls)
  then obtain l' ls'' where s: "ls' = l' # ls''" "layer_shape l = layer_shape l'"
      "map layer_shape ls = map layer_shape ls''"
    by (cases ls') auto
  with Cons.IH [of ls'' ws] fill_linear_append [of l l'] show ?case by simp
qed

lemma fill_rows_take:
  "fill_rows rows ws = (r, ws') \<Longrightarrow> sum_list (map length rows) \<le> length ws \<Longrightarrow>
     concat r = take (sum_list (map length rows)) ws \<and> ws' = drop (sum_list (map length rows)) ws
     \<and> map length r = map length rows"
proof (induction rows arbitrary: ws r ws')
  case Nil
  then show ?case by simp
next
  case (Cons row rows)
  obtain rs ws1 where f: "fill_rows rows (drop (length row) ws) = (rs, ws1)"
    by (cases "fill_rows rows (drop (length row) ws)") auto
  with Cons.prems have r: "r = take (length row) ws # rs" "ws' = ws1"
    by auto
  from Cons.prems(2) have "sum_list (map length rows) \<le> length (drop (length row) ws)"
    by simp
  from Cons.IH [OF f this] r Cons.prems(2) show ?case
    by (simp add: take_add add.commute)
qed

lemma fill_linear_take:
  assumes a: "fill_linear l ws = (l', ws')" and b: "layer_size l \<le> length ws"
  shows "concat (weight l') @ bias l' = take (layer_size l) ws \<and> ws' = drop (layer_size l) ws
     \<and> layer_shape l' = layer_shape l"
proof -
  obtain wt ws1 where f: "fill_rows (weight l) ws = (wt, ws1)"
    by (cases "fill_rows (weight l) ws") auto
  from b have "sum_list (map length (weight l)) \<le> length ws"
    by (simp add: layer_size_def)
  note t = fill_rows_take [OF f this]
  from a f have l': "l' = \<lparr>weight = wt, bias = take (length (bias l)) ws1\<rparr>"
    and ws': "ws' = drop (length (bias l)) ws1"
    by (simp_all add: fill_linear_def)
  from b t have len: "length (bias l) \<le> length ws1"
    by (simp add: layer_size_def)
  have "concat (weight l') @ bias l' = take (layer_size l) ws"
    using t l' by (simp add: layer_size_def take_add)
  moreover have "ws' = drop (layer_size l) ws"
    using t ws' by (simp add: layer_size_def add.commute)
  moreover have "layer_shape l' = layer_shape l"
    using t l' len by (simp add: layer_shape_def)
  ultimately show ?thesis by simp
qed

lemma fill_layers_take:
  "sum_list (map layer_size ls) \<le> length ws \<Longrightarrow>
     concat (map (\<lambda>l. concat (weight l) @ bias l) (fill_layers ls ws))
       = take (sum_list (map layer_size ls)) ws
     \<and> map layer_shape (fill_layers ls ws) = map layer_shape ls"
proof (induction ls arbitrary: ws)
  case Nil
  then show ?case by simp
next
  case (Cons l ls)
  obtain l' ws' where f: "fill_linear l ws = (l', ws')"
    by (cases "fill_linear l ws") auto
  from Cons.prems have le: "layer_size l \<le> length ws" by simp
  note t = fill_linear_take [OF f le]
  from Cons.prems t have "sum_list (map layer_size ls) \<le> length ws'" by simp
  from Cons.IH [OF this] t f show ?case
    by (simp add: take_add add.commute)
qed

lemma fill_rows_length_cong:
  "map length rows = map length rows' \<Longrightarrow> fill_rows rows ws = fill_rows rows' ws"
proof (induction rows arbitrary: rows' ws)
  case Nil
  then show ?case by simp
next
  case (Cons r rs)
  then obtain r' rs' where "rows' = r' # rs'" "length r = length r'"
      "map length rs = map length rs'"
    by (cases rows') auto
  with Cons.IH [of rs'] show ?case by simp
qed

lemma fill_layers_shape_cong:
  "map layer_shape ls = map layer_shape ls' \<Longrightarrow> fill_layers ls ws = fill_layers ls' ws"
proof (induction ls arbitrary: ls' ws)
  case Nil
  then show ?case by simp
next
  case (Cons l ls)
  then obtain l' ls'' where s: "ls' = l' # ls''" "layer_shape l = layer_shape l'"
      "map layer_shape ls = map layer_shape ls''"
    by (cases ls') auto
  then have "fill_linear l ws = fill_linear l' ws"
    using fill_rows_length_cong [of "weight l" "weight l'" ws]
    by (simp add: fill_linear_def layer_shape_def)
  with s Cons.IH [of ls''] show ?case by simp
qed

lemma length_concat_leaves:
  "length (concat (map (\<lambda>l. concat (weight l) @ bias l) ls)) = sum_list (map layer_size ls)"
  by (induction ls) (simp_all add: layer_size_def length_concat)

lemma length_leaf_words: "length (leaf_words m) = sum_list (map layer_size (layers m))"
  by (simp add: leaf_words_def length_concat_leaves)

lemma length_leaf_words_shape:
  assumes "shape m = shape m'"
  shows "length (leaf_words m) = length (leaf_words m')"
proof -
  from assms have "map (\<lambda>s. sum_list (fst s) + snd s) (map layer_shape (layers m))
    = map (\<lambda>s. sum_list (fst s) + snd s) (map layer_shape (layers m'))"
    by (simp only: shape_def)
  then have "map layer_size (layers m) = map layer_size (layers m')"
    by (simp add: comp_def layer_shape_def layer_size_def [abs_def])
  then show ?thesis
    by (simp only: length_leaf_words)
qed

lemma fill_from_cong:
  assumes "shape sk = shape sk'" "activation sk = activation sk'"
  shows "fill_from f sk = fill_from f (sk' :: mlp)"
proof -
  have e1: "fill_layers (layers sk) ws = fill_layers (layers sk') ws" for ws
    using assms(1) unfolding shape_def by (rule fill_layers_shape_cong)
  have e2: "sk\<lparr>layers := x\<rparr> = sk'\<lparr>layers := x\<rparr>" for x
    using assms(2) by (cases sk; cases sk') simp
  have e3: "length (leaf_words sk) = length (leaf_words sk')"
    using assms(1) by (rule length_leaf_words_shape)
  show ?thesis
    by (simp only: fill_from_def e1 e2 e3)
qed

lemma fill_from_bytes:
  assumes "fill_from f like = Inr m"
  shows "leaf_bytes m = f \<and> shape m = shape like \<and> activation m = activation like"
proof -
  from assms have len: "length f = 4 * length (leaf_words like)"
    and m: "m = like\<lparr>layers := fill_layers (layers like) (words_of_bytes f)\<rparr>"
    by (auto simp add: fill_from_def Let_def split: if_splits)
  from len have n: "sum_list (map layer_size (layers like)) = length (words_of_bytes f)"
    by (simp add: length_words_of_bytes length_leaf_words)
  then have "sum_list (map layer_size (layers like)) \<le> length (words_of_bytes f)"
    by simp
  from fill_layers_take [OF this] n m have "leaf_words m = words_of_bytes f" "shape m = shape like"
    by (simp_all add: leaf_words_def shape_def)
  moreover from len have "4 dvd length f" by simp
  ultimately show ?thesis
    using m by (simp add: leaf_bytes_def bytes_of_words_of_bytes)
qed

subsection \<open>The constructor\<close>

lemma layer_shape_Linear:
  "layer_shape (Linear rng k i fin fout) = layer_shape (Linear rng' k' i' fin fout)"
  by (simp add: layer_shape_def Linear_def comp_def)

lemma map_layer_shape_mlp_layers:
  "map layer_shape (mlp_layers rng k i out wd d) = map layer_shape (mlp_layers rng' k' i out wd d)"
  using layer_shape_Linear [of rng k _ _ _ rng' k']
  by (simp add: mlp_layers_def)

lemma MLP_shape:
  "MLP rng i out wd d act k = Inr m \<Longrightarrow>
   \<exists>m'. MLP rng' i out wd d act k' = Inr m' \<and> shape m' = shape m \<and> activation m' = activation m"
  using map_layer_shape_mlp_layers [of rng' k' _ _ _ _ rng k]
  by (auto simp add: MLP_def shape_def split: pyval.splits if_splits)

lemma make_kwargs_shape:
  assumes "make_kwargs rng k params = Inr m"
  shows "\<exists>m'. make_kwargs rng' k' params = Inr m' \<and> shape m' = shape m
    \<and> activation m' = activation m"
proof -
  from assms obtain kw sz wd dp where kw: "params = PyDict kw"
    "list_all (\<lambda>name. name \<in> set [str_of ''size'', str_of ''width'', str_of ''depth'',
                                          str_of ''use_tanh'']) (map fst kw)"
    "map_of kw (str_of ''size'') = Some sz" "map_of kw (str_of ''width'') = Some wd"
    "map_of kw (str_of ''depth'') = Some dp"
    by (auto simp add: make_kwargs_def split: pyval.splits if_splits option.splits)
  define u where
    "u = (case map_of kw (str_of ''use_tanh'') of None \<Rightarrow> PyBool False | Some u \<Rightarrow> u)"
  have m: "make rng k sz wd dp u = Inr m"
    using assms kw by (simp add: make_kwargs_def u_def)
  have "make_kwargs rng' k' params = make rng' k' sz wd dp u"
    using kw by (simp add: make_kwargs_def u_def)
  with m MLP_shape [of rng sz "PyInt 1" wd dp _ k m rng' k'] show ?thesis
    by (simp add: make_def)
qed

lemma make_kwargs_Inl: "make_kwargs rng k params = Inl e \<Longrightarrow> e = ConstructorError"
  by (auto simp add: make_kwargs_def make_def MLP_def split: pyval.splits if_splits option.splits)

lemma make_kwargs_failure:
  assumes "make_kwargs rng k params = Inl e"
  shows "make_kwargs rng' k' params = Inl e"
proof (cases "make_kwargs rng' k' params")
  case (Inr m)
  from make_kwargs_shape [OF this, of rng k] assms show ?thesis by auto
next
  case (Inl e')
  with assms make_kwargs_Inl [of rng k params e] make_kwargs_Inl [of rng' k' params e']
  show ?thesis by simp
qed

subsection \<open>Integers and their digits\<close>

lemma digits_val_append: "digits_val acc (xs @ ys) = digits_val (digits_val acc xs) ys"
  by (induction xs arbitrary: acc) simp_all

lemma dec_digits: "list_all is_digit (dec n)"
proof (induction n rule: dec.induct)
  case (1 n)
  have d: "is_digit (48 + n mod 10)" by (simp add: is_digit_def)
  show ?case
  proof (cases "n < 10")
    case True
    with d show ?thesis by (subst dec.simps) simp
  next
    case False
    with 1 d show ?thesis by (subst dec.simps) simp
  qed
qed

lemma dec_nonempty: "dec n \<noteq> []"
  by (subst dec.simps) simp

lemma digits_val_dec: "digits_val 0 (dec n) = n"
proof (induction n rule: dec.induct)
  case (1 n)
  show ?case
  proof (cases "n < 10")
    case True
    then show ?thesis by (subst dec.simps) simp
  next
    case False
    with 1 show ?thesis
      by (subst dec.simps) (simp add: digits_val_append)
  qed
qed

lemma hd_dec: "hd (dec n) = 48 \<longleftrightarrow> n = 0"
proof (induction n rule: dec.induct)
  case (1 n)
  show ?case
  proof (cases "n < 10")
    case True
    then show ?thesis by (subst dec.simps) simp
  next
    case False
    then have "n div 10 \<noteq> 0" by simp
    with 1 False show ?thesis
      by (subst dec.simps) (simp add: dec_nonempty)
  qed
qed

lemma hd_dec_digit: "is_digit (hd (dec n))"
  using dec_digits [of n] dec_nonempty [of n] by (cases "dec n") simp_all

lemma takeWhile_digits:
  "list_all is_digit ds \<Longrightarrow> follows rest \<Longrightarrow>
   takeWhile is_digit (ds @ rest) = ds \<and> dropWhile is_digit (ds @ rest) = rest"
proof (induction ds)
  case Nil
  then show ?case by (cases rest) (auto simp add: is_digit_def is_ws_def)
next
  case (Cons d ds)
  then show ?case by simp
qed

lemma scan_int_part_dec:
  assumes "follows rest"
  shows "scan_int_part (dec n @ rest) = Some (dec n, rest)"
proof (cases "dec n")
  case Nil
  with dec_nonempty show ?thesis by simp
next
  case (Cons c cs)
  with dec_digits [of n] have d: "is_digit c" "list_all is_digit cs" by simp_all
  show ?thesis
  proof (cases "n = 0")
    case True
    then have "dec n = [48]" by (simp add: dec.simps)
    then show ?thesis by (simp add: scan_int_part_def)
  next
    case False
    with hd_dec [of n] Cons have "c \<noteq> 48" by simp
    with d(1) have "49 \<le> c \<and> c \<le> 57" by (simp add: is_digit_def)
    with Cons takeWhile_digits [OF d(2) assms] \<open>c \<noteq> 48\<close> show ?thesis
      by (simp add: scan_int_part_def)
  qed
qed

lemma scan_frac_follows: "follows rest \<Longrightarrow> scan_frac rest = ([], rest)"
  by (cases rest rule: follows.cases)
     (auto simp add: scan_frac_def is_ws_def split: list.splits)

lemma scan_exp_follows: "follows rest \<Longrightarrow> scan_exp rest = ([], rest)"
  by (cases rest rule: follows.cases)
     (auto simp add: scan_exp_def is_ws_def split: list.splits)

lemma match_number_int_repr:
  assumes "follows rest" "int_digits i \<le> max_str_digits"
  shows "match_number (int_repr i @ rest) = Done (PyInt i, rest)"
proof (cases "i < 0")
  case True
  then have "nat \<bar>i\<bar> = nat (- i)" by simp
  with assms(2) have "\<not> max_str_digits < length (dec (nat (- i)))"
    by (simp add: int_digits_def)
  with True show ?thesis
    using scan_int_part_dec [OF assms(1), of "nat (- i)"] scan_frac_follows [OF assms(1)]
      scan_exp_follows [OF assms(1)]
    by (simp add: match_number_def int_repr_def digits_val_dec)
next
  case False
  then have "nat \<bar>i\<bar> = nat i" by simp
  with assms(2) have d: "\<not> max_str_digits < length (dec (nat i))"
    by (simp add: int_digits_def)
  from hd_dec_digit [of "nat i"] dec_nonempty [of "nat i"]
  obtain c cs where c: "dec (nat i) = c # cs" "c \<noteq> 45"
    by (cases "dec (nat i)") (auto simp add: is_digit_def)
  with False d show ?thesis
    using scan_int_part_dec [OF assms(1), of "nat i"] scan_frac_follows [OF assms(1)]
      scan_exp_follows [OF assms(1)] digits_val_dec [of "nat i"]
    by (simp add: match_number_def int_repr_def)
qed

subsection \<open>Strings and their escapes\<close>

lemma hex_digits_sum:
  assumes "n < 65536"
  shows "n div 4096 mod 16 * 4096 + n div 256 mod 16 * 256 + n div 16 mod 16 * 16 + n mod 16
    = (n::nat)"
proof -
  have a: "n = n div 16 * 16 + n mod 16" by simp
  have b: "n div 16 = n div 256 * 16 + n div 16 mod 16"
    using div_mult_mod_eq [of "n div 16" 16] by (simp add: div_mult2_eq [symmetric])
  have c: "n div 256 = n div 4096 * 16 + n div 256 mod 16"
    using div_mult_mod_eq [of "n div 256" 16] by (simp add: div_mult2_eq [symmetric])
  have d: "n div 4096 mod 16 = n div 4096"
    using assms by simp
  from a b c d show ?thesis by linarith
qed

lemma hexval_hexdigit: "d < 16 \<Longrightarrow> hexval (hexdigit d) = Some d"
  by (auto simp add: hexval_def hexdigit_def)

lemma u_escape_hex4:
  assumes "n < 65536"
  obtains a b c d where "u_escape n = [92, 117, a, b, c, d]"
    and "\<And>r. hex4 (a # b # c # d # r) = Some n"
proof
  show "u_escape n = [92, 117, hexdigit (n div 4096 mod 16), hexdigit (n div 256 mod 16),
      hexdigit (n div 16 mod 16), hexdigit (n mod 16)]"
    by (simp only: u_escape_def)
  have "n div 4096 mod 16 * 4096 + n div 256 mod 16 * 256 + n div 16 mod 16 * 16 + n mod 16 = n"
    using assms by (rule hex_digits_sum)
  then show "hex4 (hexdigit (n div 4096 mod 16) # hexdigit (n div 256 mod 16)
               # hexdigit (n div 16 mod 16) # hexdigit (n mod 16) # r) = Some n" for r
    by (simp only: hex4_def list.case hexval_hexdigit mod_less_divisor zero_less_numeral
        prod.case option.case)
qed

lemma scanstring_plain:
  "32 \<le> c \<Longrightarrow> c \<noteq> 34 \<Longrightarrow> c \<noteq> 92 \<Longrightarrow>
   scanstring (c # r) = map_option (\<lambda>(x, y). (c # x, y)) (scanstring r)"
  by simp

lemma scanstring_u_bmp:
  assumes "n < 65536" "n < 55296 \<or> 56319 < n"
  shows "scanstring (u_escape n @ r) = map_option (\<lambda>(x, y). (n # x, y)) (scanstring r)"
proof -
  from u_escape_hex4 [OF assms(1)] obtain a b c d where u: "u_escape n = [92, 117, a, b, c, d]"
    and h: "\<And>r. hex4 (a # b # c # d # r) = Some n"
    by blast
  from assms(2) have "\<not> (55296 \<le> n \<and> n \<le> 56319)" by linarith
  then show ?thesis
    by (auto simp add: u h)
qed

lemma scanstring_u_pair:
  assumes "65536 \<le> c" "c < 1114112"
  shows "scanstring (u_escape (55296 + (c - 65536) div 1024)
                     @ u_escape (56320 + (c - 65536) mod 1024) @ r)
    = map_option (\<lambda>(x, y). (c # x, y)) (scanstring r)"
proof -
  define hi where "hi = 55296 + (c - 65536) div 1024"
  define lo where "lo = 56320 + (c - 65536) mod 1024"
  from assms have hi: "hi < 65536" "55296 \<le> hi" "hi \<le> 56319" by (simp_all add: hi_def)
  have lo: "lo < 65536" "56320 \<le> lo" "lo \<le> 57343" by (simp_all add: lo_def)
  have c: "65536 + (hi - 55296) * 1024 + (lo - 56320) = c"
    using assms by (simp add: hi_def lo_def)
  from u_escape_hex4 [OF hi(1)] obtain a b c' d where u: "u_escape hi = [92, 117, a, b, c', d]"
    and h: "\<And>r. hex4 (a # b # c' # d # r) = Some hi"
    by blast
  from u_escape_hex4 [OF lo(1)] obtain a' b' c'' d' where
    u': "u_escape lo = [92, 117, a', b', c'', d']"
    and h': "\<And>r. hex4 (a' # b' # c'' # d' # r) = Some lo"
    by blast
  have l: "low_surrogate_escape (u_escape lo @ r) = Some lo"
    using lo(2,3) by (simp add: low_surrogate_escape_def u' h')
  have "scanstring (u_escape hi @ u_escape lo @ r)
      = map_option (\<lambda>(x, y). ((65536 + (hi - 55296) * 1024 + (lo - 56320)) # x, y)) (scanstring r)"
    using hi(2,3) l by (simp add: u h) (simp add: u')
  then show ?thesis
    by (simp only: c hi_def [symmetric] lo_def [symmetric])
qed

lemma scanstring_escape_char:
  assumes "scalar c"
  shows "scanstring (escape_char c @ r) = map_option (\<lambda>(x, y). (c # x, y)) (scanstring r)"
proof -
  consider "c = 34" | "c = 92" | "c = 10" | "c = 13" | "c = 9" | "c = 12" | "c = 8"
    | "32 \<le> c" "c \<le> 126" "c \<noteq> 34" "c \<noteq> 92"
    | "c < 32" "c \<noteq> 10" "c \<noteq> 13" "c \<noteq> 9" "c \<noteq> 12" "c \<noteq> 8"
    | "126 < c" "c < 65536"
    | "65536 \<le> c"
    by linarith
  then show ?thesis
  proof cases
    case 8
    then have "escape_char c = [c]" by (simp add: escape_char_def)
    with 8 show ?thesis by simp
  next
    case 9
    then have "escape_char c = u_escape c" by (simp add: escape_char_def)
    with 9 show ?thesis
      using scanstring_u_bmp [of c r] by simp
  next
    case 10
    then have e: "escape_char c = u_escape c" by (simp add: escape_char_def)
    from assms 10 have "c < 55296 \<or> 56319 < c" unfolding scalar_def by linarith
    with 10 e show ?thesis
      using scanstring_u_bmp [of c r] by simp
  next
    case 11
    then have e: "escape_char c = u_escape (55296 + (c - 65536) div 1024)
        @ u_escape (56320 + (c - 65536) mod 1024)"
      by (simp add: escape_char_def)
    from assms 11 have "c < 1114112" by (simp add: scalar_def)
    with 11 e show ?thesis
      using scanstring_u_pair [of c r] by simp
  qed (simp_all add: escape_char_def unescape_def)
qed

lemma scanstring_escaped:
  "list_all scalar s \<Longrightarrow>
   scanstring (concat (map escape_char s) @ 34 # r) = Some (s, r)"
  by (induction s) (simp_all add: scanstring_escape_char)

lemma py_encode_basestring_ascii_Cons:
  "py_encode_basestring_ascii s = 34 # concat (map escape_char s) @ [34]"
  by (simp add: py_encode_basestring_ascii_def)

subsection \<open>What the encoder writes\<close>

lemma collect_map_Inr:
  "(\<And>x. x \<in> set xs \<Longrightarrow> f x = Inr (g x)) \<Longrightarrow> collect (map f xs) = Inr (map g xs)"
  by (induction xs) simp_all


lemma within_limits_mono: "within_limits d v \<Longrightarrow> d \<le> d' \<Longrightarrow> within_limits d' v"
proof (induction v arbitrary: d d')
  case (PyList vs)
  then have "d - 1 \<le> d' - 1" by simp
  with PyList show ?case by (auto simp add: list_all_iff)
next
  case (PyDict kvs)
  then have le: "d - 1 \<le> d' - 1" by simp
  have "within_limits (d' - 1) (snd kv)" if "kv \<in> set kvs" for kv
  proof -
    from that PyDict.prems(1) have "within_limits (d - 1) (snd kv)" by (simp add: list_all_iff)
    with PyDict.IH [of kv "snd kv" "d - 1" "d' - 1"] that le show ?thesis
      by (cases kv) simp
  qed
  with PyDict.prems show ?case by (simp add: list_all_iff)
qed simp_all

lemma encode_obj_text:
  "plain v \<Longrightarrow> within_limits d v \<Longrightarrow> encode_obj d v = Inr (json_text v)"
proof (induction v arbitrary: d)
  case (PyList vs)
  have "encode_obj (d - 1) v = Inr (json_text v)" if "v \<in> set vs" for v
    using PyList.IH [OF that, of "d - 1"] PyList.prems that by (simp add: list_all_iff)
  then have "collect (map (encode_obj (d - 1)) vs) = Inr (map json_text vs)"
    by (rule collect_map_Inr)
  with PyList.prems show ?case by simp
next
  case (PyDict kvs)
  let ?f = "\<lambda>(k, v). case encode_obj (d - 1) v of
                        Inl e \<Rightarrow> Inl e
                      | Inr t \<Rightarrow> Inr (py_encode_basestring_ascii k @ [58, 32] @ t)"
  let ?g = "\<lambda>kv. py_encode_basestring_ascii (fst kv) @ [58, 32] @ json_text (snd kv)"
  have "?f kv = Inr (?g kv)" if "kv \<in> set kvs" for kv
  proof -
    obtain k v where kv: "kv = (k, v)" by (cases kv)
    with that PyDict.prems have "plain v" "within_limits (d - 1) v"
      by (auto simp add: list_all_iff)
    with PyDict.IH [of kv v "d - 1"] that kv show ?thesis by simp
  qed
  then have "collect (map ?f kvs) = Inr (map ?g kvs)"
    by (rule collect_map_Inr)
  with PyDict.prems show ?case by simp
qed simp_all


subsection \<open>Reading back what the encoder writes\<close>

lemma int_repr_Cons:
  "\<exists>c cs. int_repr i = c # cs \<and> (c = 45 \<or> is_digit c)
     \<and> (c = 45 \<longrightarrow> cs \<noteq> [] \<and> is_digit (hd cs))"
proof (cases "i < 0")
  case True
  with dec_nonempty hd_dec_digit show ?thesis
    by (simp add: int_repr_def)
next
  case False
  from dec_nonempty [of "nat i"] hd_dec_digit [of "nat i"] obtain c cs
    where "dec (nat i) = c # cs" "is_digit c"
    by (cases "dec (nat i)") auto
  with False show ?thesis
    by (auto simp add: int_repr_def is_digit_def)
qed

lemma starts_value_text:
  assumes "plain v"
  shows "starts_value (json_text v)"
proof (cases v)
  case (PyInt i)
  obtain c cs where "int_repr i = c # cs" "c = 45 \<or> is_digit c"
    using int_repr_Cons [of i] by blast
  with PyInt show ?thesis
    by (auto simp add: starts_value_def is_ws_def is_digit_def)
qed (use assms in \<open>auto simp add: starts_value_def is_ws_def str_of_def
      py_encode_basestring_ascii_def\<close>)

lemma skip_ws_starts_value: "starts_value t \<Longrightarrow> skip_ws (t @ r) = t @ r"
  by (cases t) (simp_all add: starts_value_def)

lemma scan_once_null:
  "scan_once (Suc n) d (str_of ''null'' @ rest) = Done (PyNone, rest)"
  by (simp add: str_of_def)

lemma scan_once_true:
  "scan_once (Suc n) d (str_of ''true'' @ rest) = Done (PyBool True, rest)"
  by (simp add: str_of_def)

lemma scan_once_false:
  "scan_once (Suc n) d (str_of ''false'' @ rest) = Done (PyBool False, rest)"
  by (simp add: str_of_def)

lemma scan_once_int:
  assumes "follows rest" "int_digits i \<le> max_str_digits"
  shows "scan_once (Suc n) d (int_repr i @ rest) = Done (PyInt i, rest)"
proof -
  obtain c cs where c: "int_repr i = c # cs" "c = 45 \<or> is_digit c"
    "c = 45 \<longrightarrow> cs \<noteq> [] \<and> is_digit (hd cs)"
    using int_repr_Cons [of i] by blast
  have m: "match_number (c # cs @ rest) = Done (PyInt i, rest)"
    using match_number_int_repr [OF assms, of] c(1) by simp
  have "strip_prefix (str_of ''-Infinity'') (c # cs @ rest) = None" if "c = 45"
  proof -
    from c(3) that obtain e es where "cs = e # es" "is_digit e"
      by (cases cs) auto
    then show ?thesis
      by (auto simp add: str_of_def is_digit_def)
  qed
  with c(2) m show ?thesis
    unfolding c(1) by (auto simp add: is_digit_def)
qed

lemma scan_once_str:
  assumes "list_all scalar s"
  shows "scan_once (Suc n) d (py_encode_basestring_ascii s @ rest) = Done (PyStr s, rest)"
  using scanstring_escaped [OF assms, of rest]
  by (simp add: py_encode_basestring_ascii_def)

lemma join_Cons: "join sep (x # xs) = x @ (if xs = [] then [] else sep @ join sep xs)"
  by (cases xs) simp_all

lemma starts_value_append: "starts_value t \<Longrightarrow> starts_value (t @ r)"
  by (cases t) (simp_all add: starts_value_def)

lemma starts_value_join:
  "ts \<noteq> [] \<Longrightarrow> starts_value (hd ts) \<Longrightarrow> starts_value (join sep ts)"
  by (cases ts) (simp_all add: join_Cons starts_value_append)

lemma dict_setitem_new: "k \<notin> fst ` set d \<Longrightarrow> dict_setitem k v d = d @ [(k, v)]"
  by (induction d) auto

lemma fold_dict_setitem:
  "distinct (map fst (d @ ps)) \<Longrightarrow> fold (\<lambda>(k, v) d. dict_setitem k v d) ps d = d @ ps"
proof (induction ps arbitrary: d)
  case Nil
  then show ?case by simp
next
  case (Cons p ps)
  obtain k v where p: "p = (k, v)" by (cases p)
  from Cons.prems p have "k \<notin> fst ` set d" by auto
  then have "dict_setitem k v d = d @ [(k, v)]" by (rule dict_setitem_new)
  moreover from Cons.prems p have "distinct (map fst ((d @ [(k, v)]) @ ps))" by simp
  ultimately show ?case
    using Cons.IH [of "d @ [(k, v)]"] p by simp
qed

lemma dict_of_pairs_distinct: "distinct (map fst ps) \<Longrightarrow> dict_of_pairs ps = ps"
  using fold_dict_setitem [of "[]" ps] by (simp add: dict_of_pairs_def)

lemma parse_array_join:
  assumes "\<And>v n rest. v \<in> set vs \<Longrightarrow> length (json_text v) \<le> n
      \<Longrightarrow> follows rest \<Longrightarrow> scan_once n d (json_text v @ rest) = Done (v, rest)"
    and "list_all plain vs"
    and "vs \<noteq> []"
    and "length (join [44, 32] (map json_text vs)) < m"
  shows "parse_array m d (join [44, 32] (map json_text vs) @ 93 # rest) = Done (vs, rest)"
  using assms
proof (induction vs arbitrary: m)
  case Nil
  then show ?case by simp
next
  case (Cons v vs)
  let ?t = "json_text v"
  from Cons.prems(4) obtain k where m: "m = Suc k" by (cases m) auto
  from Cons.prems(4) m have lt: "length ?t \<le> k"
    by (simp add: join_Cons split: if_splits)
  show ?case
  proof (cases "vs = []")
    case True
    have "scan_once k d (?t @ 93 # rest) = Done (v, 93 # rest)"
      using Cons.prems(1) [of v k "93 # rest"] lt by simp
    then show ?thesis
      using m True by (simp add: is_ws_def)
  next
    case False
    then obtain v' vs' where vs: "vs = v' # vs'" by (cases vs) auto
    with Cons.prems(2) have "starts_value (json_text v')"
      using starts_value_text [of v'] by simp
    then have sv: "starts_value (join [44, 32] (map json_text vs))"
      using vs starts_value_join [of "map json_text vs"] by simp
    let ?tail = "join [44, 32] (map json_text vs) @ 93 # rest"
    have "scan_once k d (?t @ 44 # 32 # ?tail) = Done (v, 44 # 32 # ?tail)"
      using Cons.prems(1) [of v k "44 # 32 # ?tail"] lt by simp
    moreover have "length (join [44, 32] (map json_text vs)) < k"
      using Cons.prems(4) m False by (simp add: join_Cons split: if_splits)
    then have "parse_array k d ?tail = Done (vs, rest)"
      using Cons.IH [of k] Cons.prems(1,2) False by simp
    moreover have "skip_ws (32 # ?tail) = ?tail"
      using skip_ws_starts_value [OF sv] by (simp add: is_ws_def)
    ultimately show ?thesis
      using m False by (simp add: is_ws_def join_Cons)
  qed
qed

lemma starts_value_member: "starts_value (member_text kv)"
  by (simp add: starts_value_def is_ws_def py_encode_basestring_ascii_def)

lemma parse_object_join:
  assumes "\<And>kv n rest. kv \<in> set kvs \<Longrightarrow> length (json_text (snd kv)) \<le> n
      \<Longrightarrow> follows rest \<Longrightarrow> scan_once n d (json_text (snd kv) @ rest) = Done (snd kv, rest)"
    and "list_all (\<lambda>kv. list_all scalar (fst kv) \<and> plain (snd kv)) kvs"
    and "kvs \<noteq> []"
    and "length (join [44, 32] (map member_text kvs)) < m"
  shows "parse_object m d (join [44, 32] (map member_text kvs) @ 125 # rest) = Done (kvs, rest)"
  using assms
proof (induction kvs arbitrary: m)
  case Nil
  then show ?case by simp
next
  case (Cons kv kvs)
  obtain k v where kv: "kv = (k, v)" by (cases kv)
  let ?t = "json_text v"
  from Cons.prems(2) kv have k: "list_all scalar k" and jv: "plain v" by simp_all
  from Cons.prems(4) obtain j where m: "m = Suc j" by (cases m) auto
  from Cons.prems(4) m kv have lt: "length ?t \<le> j"
    by (simp add: join_Cons split: if_splits)
  have sv: "starts_value ?t"
    using jv by (rule starts_value_text)
  have key: "scanstring (concat (map escape_char k) @ 34 # r) = Some (k, r)" for r
    using k by (rule scanstring_escaped)
  show ?case
  proof (cases "kvs = []")
    case True
    have "scan_once j d (?t @ 125 # rest) = Done (v, 125 # rest)"
      using Cons.prems(1) [of kv j "125 # rest"] kv lt by simp
    then show ?thesis
      using m True kv key skip_ws_starts_value [OF sv]
      by (simp add: is_ws_def py_encode_basestring_ascii_def)
  next
    case False
    have sv': "starts_value (join [44, 32] (map member_text kvs))"
      using False starts_value_join [of "map member_text kvs"] starts_value_member
      by (cases kvs) simp_all
    let ?tail = "join [44, 32] (map member_text kvs) @ 125 # rest"
    have "scan_once j d (?t @ 44 # 32 # ?tail) = Done (v, 44 # 32 # ?tail)"
      using Cons.prems(1) [of kv j "44 # 32 # ?tail"] kv lt by simp
    moreover have L: "length (join [44, 32] (map member_text kvs)) < j"
      using Cons.prems(4) m kv False by (simp add: join_Cons split: if_splits)
    have P: "scan_once n d (json_text (snd kv) @ rest) = Done (snd kv, rest)"
      if "kv \<in> set kvs" "length (json_text (snd kv)) \<le> n" "follows rest"
      for kv n rest
      using Cons.prems(1) [of kv n rest] that by simp
    have V: "list_all (\<lambda>kv. list_all scalar (fst kv) \<and> plain (snd kv)) kvs"
      using Cons.prems(2) by simp
    have "parse_object j d ?tail = Done (kvs, rest)"
      by (rule Cons.IH [OF P V False L])
    moreover have "skip_ws (32 # ?tail) = ?tail"
      using skip_ws_starts_value [OF sv'] by (simp add: is_ws_def)
    ultimately show ?thesis
      using m kv key False skip_ws_starts_value [OF sv]
      by (simp add: is_ws_def py_encode_basestring_ascii_def join_Cons)
  qed
qed

lemma scan_once_text:
  "plain v \<Longrightarrow> within_limits d v \<Longrightarrow> length (json_text v) \<le> n \<Longrightarrow> follows rest \<Longrightarrow>
   scan_once n d (json_text v @ rest) = Done (v, rest)"
proof (induction v arbitrary: d n rest)
  case PyNone
  then obtain k where "n = Suc k" by (cases n) (auto simp add: str_of_def)
  then show ?case using scan_once_null [of k d rest] by simp
next
  case (PyBool b)
  then obtain k where "n = Suc k" by (cases n) (auto simp add: str_of_def split: if_splits)
  then show ?case
    using scan_once_true [of k d rest] scan_once_false [of k d rest] by (cases b) simp_all
next
  case (PyInt i)
  obtain c cs where "int_repr i = c # cs" using int_repr_Cons [of i] by blast
  with PyInt obtain k where "n = Suc k" by (cases n) auto
  with PyInt show ?case using scan_once_int [of rest i k d] by simp
next
  case (PyFloat x)
  then show ?case by simp
next
  case (PyStr s)
  then obtain k where "n = Suc k"
    by (cases n) (auto simp add: py_encode_basestring_ascii_def)
  with PyStr show ?case using scan_once_str [of s k d rest] by simp
next
  case (PyList vs)
  let ?ts = "map json_text vs"
  from PyList.prems(3) obtain k where k: "n = Suc k" "length (join [44, 32] ?ts) < k"
    by (cases n) auto
  from PyList.prems(2) have d: "d \<noteq> 0" and wl: "list_all (within_limits (d - 1)) vs"
    by simp_all
  show ?case
  proof (cases "vs = []")
    case True
    with k d show ?thesis by (simp add: is_ws_def)
  next
    case False
    then obtain v' vs' where vs: "vs = v' # vs'" by (cases vs) auto
    from PyList.prems(1) have jv: "list_all plain vs" by simp
    with vs have "starts_value (json_text v')"
      using starts_value_text [of v'] by simp
    then have sv: "starts_value (join [44, 32] ?ts)"
      using vs starts_value_join [of ?ts] by simp
    have P: "scan_once n (d - 1) (json_text v @ rest) = Done (v, rest)"
      if "v \<in> set vs" "length (json_text v) \<le> n" "follows rest"
      for v n rest
      using PyList.IH [of v "d - 1" n rest] that jv wl by (simp add: list_all_iff)
    have "parse_array k (d - 1) (join [44, 32] ?ts @ 93 # rest) = Done (vs, rest)"
      by (rule parse_array_join [OF P jv False k(2)])
    moreover from sv obtain c r where "join [44, 32] ?ts @ 93 # rest = c # r" "c \<noteq> 93"
      "skip_ws (join [44, 32] ?ts @ 93 # rest) = c # r"
      using skip_ws_starts_value [OF sv, of "93 # rest"]
      by (cases "join [44, 32] ?ts") (auto simp add: starts_value_def)
    ultimately show ?thesis
      using k d by simp
  qed
next
  case (PyDict kvs)
  let ?ms = "map member_text kvs"
  from PyDict.prems(3) obtain j where j: "n = Suc j" "length (join [44, 32] ?ms) < j"
    by (cases n) auto
  from PyDict.prems(1) have dk: "distinct (map fst kvs)"
    and jv: "list_all (\<lambda>kv. list_all scalar (fst kv) \<and> plain (snd kv)) kvs"
    by simp_all
  from PyDict.prems(2) have d: "d \<noteq> 0"
    and wl: "list_all (\<lambda>kv. within_limits (d - 1) (snd kv)) kvs"
    by simp_all
  show ?case
  proof (cases "kvs = []")
    case True
    with j d show ?thesis by (simp add: is_ws_def)
  next
    case False
    have sv: "starts_value (join [44, 32] ?ms)"
      using False starts_value_join [of ?ms] starts_value_member
      by (cases kvs) simp_all
    have P: "scan_once n (d - 1) (json_text (snd kv) @ rest) = Done (snd kv, rest)"
      if "kv \<in> set kvs" "length (json_text (snd kv)) \<le> n" "follows rest"
      for kv n rest
    proof -
      from that(1) jv have "plain (snd kv)" by (auto simp add: list_all_iff)
      moreover from that(1) wl have "within_limits (d - 1) (snd kv)"
        by (auto simp add: list_all_iff)
      moreover have "snd kv \<in> Basic_BNFs.snds kv" by (cases kv) simp
      ultimately show ?thesis
        using PyDict.IH [OF that(1), of "snd kv" "d - 1" n rest] that(2,3) by simp
    qed
    have "parse_object j (d - 1) (join [44, 32] ?ms @ 125 # rest) = Done (kvs, rest)"
      by (rule parse_object_join [OF P jv False j(2)])
    moreover from sv obtain c r where "join [44, 32] ?ms @ 125 # rest = c # r" "c \<noteq> 125"
      "skip_ws (join [44, 32] ?ms @ 125 # rest) = c # r"
      using skip_ws_starts_value [OF sv, of "125 # rest"]
      by (cases "join [44, 32] ?ms") (auto simp add: starts_value_def)
    ultimately show ?thesis
      using j d dk by (simp add: dict_of_pairs_distinct)
  qed
next
  case (PyObject b)
  then show ?case by simp
qed

lemma json_loads_text:
  assumes "plain v" "within_limits d v" "rest = [] \<or> rest = [10]"
  shows "json_loads d (json_text v @ rest) = Inr v"
proof -
  have "starts_value (json_text v)" using assms(1) by (rule starts_value_text)
  then have "skip_ws (json_text v @ rest) = json_text v @ rest" by (rule skip_ws_starts_value)
  moreover have "scan_once (Suc (2 * length (json_text v @ rest))) d (json_text v @ rest)
      = Done (v, rest)"
    using assms by (intro scan_once_text) (auto simp add: is_ws_def)
  ultimately show ?thesis
    using assms(3) by (auto simp add: json_loads_def is_ws_def)
qed

subsection \<open>The header is printable ASCII\<close>

lemma printable_punct:
  "printable 34" "printable 44" "printable 32" "printable 58" "printable 91" "printable 93"
  "printable 123" "printable 125" "printable 45" "printable 92"
  by (simp_all add: printable_def)

lemma printable_hexdigit: "d < 16 \<Longrightarrow> printable (hexdigit d)"
  by (simp add: printable_def hexdigit_def)

lemma printable_u_escape: "list_all printable (u_escape n)"
  by (simp add: u_escape_def printable_hexdigit) (simp add: printable_def)

lemma printable_escape_char: "list_all printable (escape_char c)"
  using printable_u_escape
  by (simp add: escape_char_def) (simp add: printable_def)

lemma printable_basestring: "list_all printable (py_encode_basestring_ascii s)"
proof -
  have "list_all printable (concat (map escape_char s))"
    by (induction s) (simp_all add: printable_escape_char)
  then show ?thesis
    by (simp add: py_encode_basestring_ascii_def) (simp add: printable_def)
qed

lemma printable_digit: "is_digit c \<Longrightarrow> printable c"
  by (simp add: is_digit_def printable_def)

lemma printable_dec: "list_all printable (dec n)"
  using dec_digits [of n] by (auto simp add: list_all_iff printable_digit)

lemma printable_int_repr: "list_all printable (int_repr i)"
  using printable_dec by (simp add: int_repr_def) (simp add: printable_def)

lemma printable_join:
  "list_all printable sep \<Longrightarrow> list_all (list_all printable) ts \<Longrightarrow>
   list_all printable (join sep ts)"
  by (induction sep ts rule: join.induct) simp_all

lemma printable_text: "plain v \<Longrightarrow> list_all printable (json_text v)"
proof (induction v)
  case (PyList vs)
  have "list_all printable (json_text v)" if "v \<in> set vs" for v
    using PyList.IH [OF that] PyList.prems that by (simp add: list_all_iff)
  then have "list_all printable (join [44, 32] (map json_text vs))"
    by (intro printable_join) (simp_all add: list_all_iff printable_punct)
  then show ?case by (simp add: printable_punct)
next
  case (PyDict kvs)
  have "list_all printable (member_text kv)" if "kv \<in> set kvs" for kv
  proof -
    from that PyDict.prems have "plain (snd kv)" by (auto simp add: list_all_iff)
    moreover have "snd kv \<in> Basic_BNFs.snds kv" by (cases kv) simp
    ultimately have "list_all printable (json_text (snd kv))"
      using PyDict.IH [OF that, of "snd kv"] by simp
    with printable_basestring [of "fst kv"] show ?thesis
      by (simp add: printable_punct)
  qed
  then have "list_all printable (join [44, 32] (map member_text kvs))"
    by (intro printable_join) (simp_all add: list_all_iff printable_punct)
  then show ?case by (simp add: printable_punct)
qed (auto simp add: printable_basestring printable_int_repr str_of_def printable_def)

lemma utf8_encode_ascii: "list_all (\<lambda>c. c < 128) t \<Longrightarrow> utf8_encode t = Some t"
  by (induction t) (simp_all add: utf8_char_def)

lemma utf8_decode_ascii: "list_all (\<lambda>c. c < 128) t \<Longrightarrow> utf8_decode t = Some t"
  by (induction t) simp_all

lemma unat_of_nat_byte: "c < 256 \<Longrightarrow> unat (of_nat c :: byte) = c"
  by (simp add: unat_of_nat)

lemma map_unat_of_nat: "list_all (\<lambda>c. c < 128) t \<Longrightarrow> map unat (map of_nat t :: byte list) = t"
  by (induction t) (simp_all add: unat_of_nat_byte)

lemma str_encode_ascii:
  "list_all (\<lambda>c. c < 128) t \<Longrightarrow> str_encode t = Inr (map of_nat t)"
  by (simp add: str_encode_def utf8_encode_ascii)

lemma bytes_decode_ascii:
  "list_all (\<lambda>c. c < 128) t \<Longrightarrow> bytes_decode (map of_nat t) = Inr t"
  using map_unat_of_nat [of t] utf8_decode_ascii [of t]
  by (simp add: bytes_decode_def del: map_map)

lemma printable_ascii: "list_all printable t \<Longrightarrow> list_all (\<lambda>c. c < 128) t"
  by (induction t) (simp_all add: printable_def)

lemma printable_no_newline: "list_all printable t \<Longrightarrow> 10 \<notin> set (map of_nat t :: byte list)"
proof (induction t)
  case Nil
  then show ?case by simp
next
  case (Cons c t)
  then have "c < 256" "c \<noteq> 10" by (simp_all add: printable_def)
  have "(of_nat c :: byte) \<noteq> 10"
  proof
    assume "(of_nat c :: byte) = 10"
    then have "unat (of_nat c :: byte) = unat (10 :: byte)" by simp
    with \<open>c < 256\<close> \<open>c \<noteq> 10\<close> show False by (simp add: unat_of_nat_byte)
  qed
  with Cons show ?case by simp
qed

subsection \<open>What the decoder reads is in the grammar\<close>

















subsection \<open>The bound on the scanner's steps is never reached\<close>



















subsection \<open>The encoder's text is JSON\<close>







subsection \<open>Lines\<close>

lemma readline_split: "10 \<notin> set hdr \<Longrightarrow> readline (hdr @ 10 # rest) = (hdr @ [10], rest)"
  by (induction hdr) auto

lemma readline_append: "readline c = (line, rest) \<Longrightarrow> line @ rest = c"
  by (induction c arbitrary: line rest) (auto split: if_splits prod.splits)

lemma readline_Nil: "readline c = ([], rest) \<Longrightarrow> c = [] \<and> rest = []"
  by (cases c) (auto split: if_splits prod.splits)

lemma readline_first_newline:
  "readline c = (line, rest) \<Longrightarrow> 10 \<notin> set (butlast line) \<and> (rest \<noteq> [] \<longrightarrow> last line = 10)"
proof (induction c arbitrary: line rest)
  case Nil
  then show ?case by simp
next
  case (Cons b bs)
  show ?case
  proof (cases "b = 10")
    case True
    with Cons.prems show ?thesis by auto
  next
    case False
    obtain l r where lr: "readline bs = (l, r)" by (cases "readline bs")
    with Cons.prems False have line: "line = b # l" and "rest = r" by simp_all
    with Cons.IH [OF lr] False readline_Nil [of bs r] lr show ?thesis
      by (cases l) auto
  qed
qed

subsection \<open>What \<^verbatim>\<open>save\<close> does\<close>

lemma save_open_failed:
  assumes "\<not> (valid_name filename \<and> writable w filename)"
  shows "save filename params model w = (Inl OpenFailed, w)"
  using assms by (auto simp add: save_def open_wb_def)

lemma save_opened:
  assumes "valid_name filename" "writable w filename"
  shows "save filename params model w =
    (case json_dumps (dumps_depth w) params of
       Inl e \<Rightarrow>
         (Inl e, w\<lparr>files := (files w)(filename \<mapsto> []),
                   events := events w @ [Opened filename WB, Closed filename]\<rparr>)
     | Inr param_str \<Rightarrow>
         (case str_encode (param_str @ [10]) of
            Inl e \<Rightarrow>
              (Inl e, w\<lparr>files := (files w)(filename \<mapsto> []),
                        events := events w @ [Opened filename WB, Closed filename]\<rparr>)
          | Inr line \<Rightarrow>
              (Inr (), w\<lparr>files := (files w)(filename \<mapsto> line @ leaf_bytes model),
                         events := events w @ [Opened filename WB, Wrote filename line,
                                               Wrote filename (leaf_bytes model),
                                               Closed filename]\<rparr>)))"
  using assms
  by (simp add: save_def open_wb_def save_body_def close_wb_def f_write_def
      tree_serialise_leaves_def split: sum.splits)

lemma json_dumps_text:
  "plain params \<Longrightarrow> within_limits d params \<Longrightarrow> json_dumps d params = Inr (json_text params)"
  by (simp add: json_dumps_def encode_obj_text)

lemma str_encode_text:
  assumes "plain params"
  shows "str_encode (json_text params @ [10]) = Inr (map of_nat (json_text params) @ [10])"
proof -
  from assms have "list_all (\<lambda>c. c < 128) (json_text params @ [10])"
    by (simp add: printable_ascii printable_text)
  then show ?thesis
    using str_encode_ascii [of "json_text params @ [10]"] by simp
qed

lemma save_encoded:
  assumes "plain params" "within_limits (dumps_depth w) params"
    and "valid_name filename" "writable w filename"
  shows "save filename params model w =
    (Inr (), w\<lparr>files := (files w)(filename \<mapsto>
                   map of_nat (json_text params) @ 10 # leaf_bytes model),
               events := events w @ [Opened filename WB,
                                     Wrote filename (map of_nat (json_text params) @ [10]),
                                     Wrote filename (leaf_bytes model),
                                     Closed filename]\<rparr>)"
  by (simp add: save_opened [OF assms(3,4)] json_dumps_text [OF assms(1,2)]
      str_encode_text [OF assms(1)])

subsection \<open>What \<^verbatim>\<open>load\<close> does\<close>

lemma load_open_failed:
  assumes "\<not> valid_name filename \<or> files w filename = None"
  shows "load rng filename w = (Inl OpenFailed, w)"
  using assms by (auto simp add: load_def open_rb_def)

lemma load_opened:
  assumes "valid_name filename" "files w filename = Some content"
    and "readline content = (line, rest)"
  shows "load rng filename w =
    (case bytes_decode line of
       Inl e \<Rightarrow>
         (Inl e, w\<lparr>events := events w @ [Opened filename RB, Read filename line,
                                          Closed filename]\<rparr>)
     | Inr s \<Rightarrow>
         (case json_loads (loads_depth w) s of
            Inl e \<Rightarrow>
              (Inl e, w\<lparr>events := events w @ [Opened filename RB, Read filename line,
                                               Closed filename]\<rparr>)
          | Inr params \<Rightarrow>
              (case make_kwargs rng (PRNGKey 0) params of
                 Inl e \<Rightarrow>
                   (Inl e, w\<lparr>events := events w @ [Opened filename RB, Read filename line,
                                                    Called (PRNGKey 0) params,
                                                    Closed filename]\<rparr>)
               | Inr skeleton \<Rightarrow>
                   (fill_from rest skeleton,
                    w\<lparr>events := events w @ [Opened filename RB, Read filename line,
                                            Called (PRNGKey 0) params, Read filename rest,
                                            Closed filename]\<rparr>))))"
  using assms
  by (simp add: load_def open_rb_def load_body_def read_params_def f_readline_def close_rb_def
      tree_deserialise_leaves_def Let_def split: sum.splits)

lemma load_reader_steps:
  assumes "valid_name filename" "files w filename = Some content"
    and "readline content = (line, rest)"
  shows "fst (load rng filename w) = reader_steps rng (loads_depth w) line rest"
  by (simp add: load_opened [OF assms] reader_steps_def split: sum.splits)

lemma bytes_decode_text:
  assumes "plain params"
  shows "bytes_decode (map of_nat (json_text params) @ [10]) = Inr (json_text params @ [10])"
proof -
  from assms have "list_all (\<lambda>c. c < 128) (json_text params @ [10])"
    by (simp add: printable_ascii printable_text)
  then show ?thesis
    using bytes_decode_ascii [of "json_text params @ [10]"] by simp
qed

lemma readline_text:
  assumes "plain params"
  shows "readline (map of_nat (json_text params) @ 10 # rest)
    = (map of_nat (json_text params) @ [10], rest)"
  using assms by (intro readline_split printable_no_newline printable_text)

lemma fill_from_leaf_bytes:
  assumes "shape sk = shape m" "activation sk = activation m"
  shows "fill_from (leaf_bytes m) sk = Inr (m :: mlp)"
proof -
  have "length (leaf_words sk) = length (leaf_words m)"
    using assms(1) by (rule length_leaf_words_shape)
  moreover have "fill_layers (layers sk) (leaf_words m) = layers m"
    using assms(1) fill_layers_append [of "layers sk" "layers m" "[]"]
    by (simp add: shape_def leaf_words_def)
  moreover have "sk\<lparr>layers := layers m\<rparr> = m"
    using assms(2) by (cases sk; cases m) simp
  ultimately show ?thesis
    by (simp add: fill_from_def leaf_bytes_def length_concat_f32_bytes words_of_bytes_concat)
qed

lemma fill_from_wrong_size:
  assumes "length (leaf_words m) \<noteq> length (leaf_words sk)"
  shows "fill_from (leaf_bytes m) sk =
    Inl (if length (leaf_words m) < length (leaf_words sk) then TruncatedStream else ShapeMismatch)"
  using assms
  by (auto simp add: fill_from_def leaf_bytes_def length_concat_f32_bytes)


lemma load_after_save:
  assumes "plain params" "within_limits (dumps_depth w) params"
    and "within_limits (loads_depth w) params"
    and "valid_name filename" "writable w filename"
  shows "fst (load rng filename (snd (save filename params model w))) =
    (case make_kwargs rng (PRNGKey 0) params of
       Inl e \<Rightarrow> Inl e
     | Inr sk \<Rightarrow> fill_from (leaf_bytes model) sk)"
proof -
  let ?w = "snd (save filename params model w)"
  let ?line = "map of_nat (json_text params) @ [10]"
  have f: "files ?w filename = Some (map of_nat (json_text params) @ 10 # leaf_bytes model)"
    and d: "loads_depth ?w = loads_depth w"
    by (simp_all add: save_encoded [OF assms(1,2,4,5)])
  have r: "readline (map of_nat (json_text params) @ 10 # leaf_bytes model)
      = (?line, leaf_bytes model)"
    using assms(1) by (rule readline_text)
  have "fst (load rng filename ?w) = reader_steps rng (loads_depth ?w) ?line (leaf_bytes model)"
    using assms(4) f r by (rule load_reader_steps)
  then show ?thesis
    using assms(1,3)
    by (simp add: d reader_steps_def bytes_decode_text json_loads_text split: sum.splits)
qed

lemma load_save_round_trip:
  assumes "plain params" "within_limits (dumps_depth w) params"
    and "within_limits (loads_depth w) params"
    and "valid_name filename" "writable w filename"
    and "make_kwargs rng k params = Inr model"
  shows "fst (load rng' filename (snd (save filename params model w))) = Inr model"
proof -
  from make_kwargs_shape [OF assms(6), of rng' "PRNGKey 0"] obtain sk
    where sk: "make_kwargs rng' (PRNGKey 0) params = Inr sk" "shape sk = shape model"
      "activation sk = activation model"
    by blast
  from sk(2,3) have "fill_from (leaf_bytes model) sk = Inr model"
    by (rule fill_from_leaf_bytes)
  with sk(1) show ?thesis
    by (simp add: load_after_save [OF assms(1-5)])
qed

subsection \<open>The text of a value does not depend on the depth left\<close>

lemma collect_Inr: "collect xs = Inr ys \<Longrightarrow> xs = map Inr ys"
proof (induction xs arbitrary: ys)
  case Nil
  then show ?case by simp
next
  case (Cons x xs)
  then show ?case by (cases x; cases "collect xs") auto
qed

lemma map_Inr_eq:
  assumes "map f xs = map Inr ts" "map g xs = map Inr ts'"
    and "\<And>x t t'. x \<in> set xs \<Longrightarrow> f x = Inr t \<Longrightarrow> g x = Inr t' \<Longrightarrow> t = t'"
  shows "ts = ts'"
  using assms
proof (induction xs arbitrary: ts ts')
  case Nil
  then show ?case by simp
next
  case (Cons x xs)
  from Cons.prems(1) obtain t us where ts: "ts = t # us" "f x = Inr t" "map f xs = map Inr us"
    by (cases ts) auto
  from Cons.prems(2) obtain t' us' where ts': "ts' = t' # us'" "g x = Inr t'"
      "map g xs = map Inr us'"
    by (cases ts') auto
  have "t = t'" using Cons.prems(3) [of x t t'] ts(2) ts'(2) by simp
  moreover have "us = us'"
    using ts(3) ts'(3)
  proof (rule Cons.IH)
    fix y u u'
    assume "y \<in> set xs" "f y = Inr u" "g y = Inr u'"
    then show "u = u'" using Cons.prems(3) [of y u u'] by simp
  qed
  ultimately show ?case using ts(1) ts'(1) by simp
qed

lemma encode_obj_depth:
  "encode_obj d v = Inr t \<Longrightarrow> encode_obj d' v = Inr t' \<Longrightarrow> t = t'"
proof (induction v arbitrary: d d' t t')
  case (PyList vs)
  from PyList.prems(1) obtain ts where ts: "collect (map (encode_obj (d - 1)) vs) = Inr ts"
      "t = [91] @ join [44, 32] ts @ [93]"
    by (cases "collect (map (encode_obj (d - 1)) vs)") (auto split: if_splits)
  from PyList.prems(2) obtain ts' where ts': "collect (map (encode_obj (d' - 1)) vs) = Inr ts'"
      "t' = [91] @ join [44, 32] ts' @ [93]"
    by (cases "collect (map (encode_obj (d' - 1)) vs)") (auto split: if_splits)
  from ts(1) ts'(1) have m: "map (encode_obj (d - 1)) vs = map Inr ts"
      "map (encode_obj (d' - 1)) vs = map Inr ts'"
    by (simp_all add: collect_Inr)
  have "ts = ts'"
    using m
  proof (rule map_Inr_eq)
    fix x u u'
    assume "x \<in> set vs" "encode_obj (d - 1) x = Inr u" "encode_obj (d' - 1) x = Inr u'"
    then show "u = u'" by (rule PyList.IH)
  qed
  with ts ts' show ?case by simp
next
  case (PyDict kvs)
  let ?f = "\<lambda>d (k, v). case encode_obj d v of
                        Inl e \<Rightarrow> Inl e
                      | Inr t \<Rightarrow> Inr (py_encode_basestring_ascii k @ [58, 32] @ t)"
  from PyDict.prems(1) obtain ts where ts: "collect (map (?f (d - 1)) kvs) = Inr ts"
      "t = [123] @ join [44, 32] ts @ [125]"
    by (cases "collect (map (?f (d - 1)) kvs)") (auto split: if_splits)
  from PyDict.prems(2) obtain ts' where ts': "collect (map (?f (d' - 1)) kvs) = Inr ts'"
      "t' = [123] @ join [44, 32] ts' @ [125]"
    by (cases "collect (map (?f (d' - 1)) kvs)") (auto split: if_splits)
  from ts(1) ts'(1) have m: "map (?f (d - 1)) kvs = map Inr ts"
      "map (?f (d' - 1)) kvs = map Inr ts'"
    by (simp_all add: collect_Inr)
  have "ts = ts'"
    using m
  proof (rule map_Inr_eq)
    fix x u u'
    assume x: "x \<in> set kvs" "?f (d - 1) x = Inr u" "?f (d' - 1) x = Inr u'"
    obtain k v where kv: "x = (k, v)" by (cases x)
    with x(2,3) obtain s s' where s: "encode_obj (d - 1) v = Inr s"
        "u = py_encode_basestring_ascii k @ [58, 32] @ s"
        "encode_obj (d' - 1) v = Inr s'"
        "u' = py_encode_basestring_ascii k @ [58, 32] @ s'"
      by (auto split: sum.splits)
    have "v \<in> Basic_BNFs.snds x" using kv by simp
    with x(1) have "s = s'" using s(1,3) by (rule PyDict.IH)
    with s show "u = u'" by simp
  qed
  with ts ts' show ?case by simp
qed (auto split: if_splits)

lemma json_dumps_depth:
  "json_dumps d v = Inr t \<Longrightarrow> json_dumps d' v = Inr t' \<Longrightarrow> t = t'"
  unfolding json_dumps_def by (rule encode_obj_depth)

subsection \<open>The examples\<close>

lemma upt_numeral: "[i..<numeral n] = (if i < numeral n then i # [Suc i..<numeral n] else [])"
  by (rule upt_rec)

lemma valid_name_example: "valid_name ''multipart_serialised.eqx''"
  by (simp add: valid_name_def)

lemma plain_hyperparameters: "plain hyperparameters"
  by (simp add: hyperparameters_def str_of_def scalar_def)

lemma within_limits_hyperparameters: "0 < d \<Longrightarrow> within_limits d hyperparameters"
  by (simp add: hyperparameters_def max_str_digits_def int_digits_def dec.simps)

lemma make_hyperparameters:
  "make_kwargs rng k hyperparameters
     = Inr \<lparr>layers = mlp_layers rng k 5 1 10 3, activation = Tanh\<rparr>"
  by (simp add: make_kwargs_def hyperparameters_def str_of_def make_def MLP_def)

lemma plain_small: "plain small_hyperparameters"
  by (simp add: small_hyperparameters_def str_of_def scalar_def)

lemma within_limits_small: "0 < d \<Longrightarrow> within_limits d small_hyperparameters"
  by (simp add: small_hyperparameters_def max_str_digits_def int_digits_def dec.simps)

lemma small_header_text: "small_header = map of_nat (json_text small_hyperparameters)"
  by (simp add: small_header_def small_hyperparameters_def str_of_def
      py_encode_basestring_ascii_def escape_char_def int_repr_def dec.simps)

lemma make_small:
  "make_kwargs zero_rng (PRNGKey 0) small_hyperparameters
     = Inr \<lparr>layers = [\<lparr>weight = [[0]], bias = [0]\<rparr>], activation = Relu\<rparr>"
  by (simp add: make_kwargs_def small_hyperparameters_def str_of_def make_def MLP_def
      mlp_layers_def Linear_def zero_rng_def upt_numeral)

lemma fill_small:
  "fill_from [0, 0, 128, 63, 0, 0, 0, 64]
     \<lparr>layers = [\<lparr>weight = [[0]], bias = [0]\<rparr>], activation = Relu\<rparr> = Inr small_model"
  by (simp add: fill_from_def leaf_words_def fill_linear_def f32_of_bytes_def small_model_def)




subsection \<open>Texts that are not JSON\<close>













section \<open>The claims\<close>

subsection \<open>Round trip\<close>



subsection \<open>The layout of the file\<close>



subsection \<open>The procedure of the reader\<close>

text \<open>
  C3. For every file that \<^verbatim>\<open>open\<close> can open for reading, \<^verbatim>\<open>load\<close> splits its
  content into the first line, up to and including the first newline byte, and the rest.
  Its outcome is that of the steps of the specification (\<open>reader_steps\<close>) on the two: the
  line is parsed as JSON, the constructor is called with the parsed hyperparameters and
  the key \<^verbatim>\<open>PRNGKey(0)\<close>, and the skeleton is filled from the rest. When \<^verbatim>\<open>load\<close>
  returns a model, the bytes of its leaves are exactly the rest of the file: no byte of
  the line is a weight and every byte after it is. The events of the operation are, in
  order: the opening, the reading of the line, the call of the constructor with exactly
  the parsed hyperparameters, the reading of the rest, the closing.
\<close>

theorem reader_procedure:
  assumes "valid_name filename" "files w filename = Some content"
  shows "case readline content of
           (line, rest) \<Rightarrow>
             line @ rest = content
           \<and> 10 \<notin> set (butlast line)
           \<and> (rest \<noteq> [] \<longrightarrow> last line = 10)
           \<and> fst (load rng filename w) = reader_steps rng (loads_depth w) line rest
           \<and> (\<forall>m. fst (load rng filename w) = Inr m \<longrightarrow> leaf_bytes m = rest)
           \<and> (\<forall>s params skeleton.
                 bytes_decode line = Inr s \<and> json_loads (loads_depth w) s = Inr params
                 \<and> make_kwargs rng (PRNGKey 0) params = Inr skeleton \<longrightarrow>
                 events (snd (load rng filename w))
                   = events w @ [Opened filename RB, Read filename line,
                                 Called (PRNGKey 0) params, Read filename rest,
                                 Closed filename])"
proof -
  obtain line rest where r: "readline content = (line, rest)" by (cases "readline content")
  have p0: "line @ rest = content" using r by (rule readline_append)
  have p1: "10 \<notin> set (butlast line)" "rest \<noteq> [] \<longrightarrow> last line = 10"
    using readline_first_newline [OF r] by simp_all
  have p2: "fst (load rng filename w) = reader_steps rng (loads_depth w) line rest"
    using assms r by (rule load_reader_steps)
  have p3: "leaf_bytes m = rest" if "fst (load rng filename w) = Inr m" for m
  proof -
    from that p2 obtain sk where "fill_from rest sk = Inr m"
      by (auto simp add: reader_steps_def split: sum.splits)
    then show ?thesis by (simp add: fill_from_bytes)
  qed
  have p4: "events (snd (load rng filename w))
      = events w @ [Opened filename RB, Read filename line, Called (PRNGKey 0) params,
                    Read filename rest, Closed filename]"
    if "bytes_decode line = Inr s" "json_loads (loads_depth w) s = Inr params"
      "make_kwargs rng (PRNGKey 0) params = Inr skeleton" for s params skeleton
    using that by (simp add: load_opened [OF assms r])
  from p0 p1 p2 p3 p4 show ?thesis
    unfolding r by (simp only: prod.case) blast
qed

theorem reader_procedure_witness:
  "fst (load zero_rng ''multipart_serialised.eqx'' good_world) = Inr small_model
   \<and> leaf_bytes small_model = [0, 0, 128, 63, 0, 0, 0, 64]
   \<and> events (snd (load zero_rng ''multipart_serialised.eqx'' good_world))
       = [Opened ''multipart_serialised.eqx'' RB,
          Read ''multipart_serialised.eqx'' (small_header @ [10]),
          Called (PRNGKey 0) small_hyperparameters,
          Read ''multipart_serialised.eqx'' [0, 0, 128, 63, 0, 0, 0, 64],
          Closed ''multipart_serialised.eqx'']"
proof -
  let ?rest = "[0, 0, 128, 63, 0, 0, 0, 64] :: byte list"
  have f: "files good_world ''multipart_serialised.eqx'' = Some (small_header @ 10 # ?rest)"
    and e: "events good_world = []" and d: "loads_depth good_world = 900"
    by (simp_all add: good_world_def fresh_world_def)
  have r: "readline (small_header @ 10 # ?rest) = (small_header @ [10], ?rest)"
    unfolding small_header_text using plain_small by (rule readline_text)
  have b: "bytes_decode (small_header @ [10]) = Inr (json_text small_hyperparameters @ [10])"
    unfolding small_header_text using plain_small by (rule bytes_decode_text)
  have j: "json_loads 900 (json_text small_hyperparameters @ [10]) = Inr small_hyperparameters"
    using plain_small by (rule json_loads_text) (simp_all add: within_limits_small)
  have s: "reader_steps zero_rng 900 (small_header @ [10]) ?rest = Inr small_model"
    by (simp add: reader_steps_def b j make_small fill_small)
  from reader_procedure [OF valid_name_example f, of zero_rng] r s b j make_small
  show ?thesis
    by (simp add: d e)
qed

subsection \<open>Hyperparameters that cannot be encoded\<close>




subsection \<open>A first line that is not JSON\<close>






subsection \<open>A skeleton of another shape\<close>

lemma plain_other: "plain other_hyperparameters"
  by (simp add: other_hyperparameters_def str_of_def scalar_def)

lemma within_limits_other: "0 < d \<Longrightarrow> within_limits d other_hyperparameters"
  by (simp add: other_hyperparameters_def max_str_digits_def int_digits_def dec.simps)

lemma make_other:
  "make_kwargs zero_rng (PRNGKey 0) other_hyperparameters
     = Inr \<lparr>layers = [\<lparr>weight = [[0, 0]], bias = [0]\<rparr>, \<lparr>weight = [[0]], bias = [0]\<rparr>],
            activation = Relu\<rparr>"
  by (simp add: make_kwargs_def other_hyperparameters_def str_of_def make_def MLP_def
      mlp_layers_def Linear_def zero_rng_def upt_numeral)

text \<open>
  C6, as the specification states it, does not hold of the reader that the specification
  describes: a skeleton whose leaves differ in count and in shape from those of the model
  that was written, but hold as many values in all, is filled without a failure. The
  model of one layer with four inputs, written with the hyperparameters of a model of two
  layers, is read back as a model of two layers.
\<close>

theorem load_other_shape_counterexample:
  "(\<exists>skeleton. make_kwargs zero_rng (PRNGKey 0) other_hyperparameters = Inr skeleton
       \<and> shape skeleton \<noteq> shape other_model
       \<and> length (layers skeleton) \<noteq> length (layers other_model))
   \<and> fst (load zero_rng ''multipart_serialised.eqx''
             (snd (save ''multipart_serialised.eqx'' other_hyperparameters other_model
                     fresh_world)))
       = Inr other_loaded
   \<and> shape other_loaded \<noteq> shape other_model"
proof -
  have l: "fst (load zero_rng ''multipart_serialised.eqx''
             (snd (save ''multipart_serialised.eqx'' other_hyperparameters other_model
                     fresh_world)))
      = fill_from (leaf_bytes other_model)
          \<lparr>layers = [\<lparr>weight = [[0, 0]], bias = [0]\<rparr>, \<lparr>weight = [[0]], bias = [0]\<rparr>],
           activation = Relu\<rparr>"
    using load_after_save [of other_hyperparameters fresh_world "''multipart_serialised.eqx''"
        zero_rng other_model] plain_other within_limits_other valid_name_example
    by (simp add: fresh_world_def make_other)
  have w: "words_of_bytes (leaf_bytes other_model) = [1, 2, 3, 4, 5]"
    unfolding leaf_bytes_def
    by (simp only: words_of_bytes_concat) (simp add: leaf_words_def other_model_def)
  have n: "length (leaf_bytes other_model) = 20"
    unfolding leaf_bytes_def
    by (simp only: length_concat_f32_bytes) (simp add: leaf_words_def other_model_def)
  have "fill_from (leaf_bytes other_model)
          \<lparr>layers = [\<lparr>weight = [[0, 0]], bias = [0]\<rparr>, \<lparr>weight = [[0]], bias = [0]\<rparr>],
           activation = Relu\<rparr> = Inr other_loaded"
    by (simp add: fill_from_def w n leaf_words_def fill_linear_def other_loaded_def)
  with l show ?thesis
    by (simp add: make_other shape_def layer_shape_def other_model_def other_loaded_def)
qed

text \<open>
  C6, amended. When the skeleton that the constructor builds from the hyperparameters of
  the file holds more values than the model that was written, \<^verbatim>\<open>load\<close> fails with
  \<open>TruncatedStream\<close>; when it holds fewer, \<^verbatim>\<open>load\<close> fails with \<open>ShapeMismatch\<close>. (A
  skeleton that holds as many is filled, whatever the shapes of its leaves.)
\<close>

theorem load_wrong_size:
  assumes "representable (dumps_depth w) params" "representable (loads_depth w) params"
    and "valid_name filename" "writable w filename"
    and "make_kwargs rng (PRNGKey 0) params = Inr skeleton"
    and "length (leaf_words model) \<noteq> length (leaf_words skeleton)"
  shows "fst (load rng filename (snd (save filename params model w))) =
    Inl (if length (leaf_words model) < length (leaf_words skeleton)
         then TruncatedStream else ShapeMismatch)"
proof -
  from assms(1,2) have "plain params" "within_limits (dumps_depth w) params"
    "within_limits (loads_depth w) params"
    by (simp_all add: representable_def)
  then have "fst (load rng filename (snd (save filename params model w)))
      = fill_from (leaf_bytes model) skeleton"
    using assms(3,4,5) by (simp add: load_after_save)
  then show ?thesis
    using fill_from_wrong_size [OF assms(6)] by simp
qed

theorem load_wrong_size_witness:
  "fst (load zero_rng ''multipart_serialised.eqx''
          (snd (save ''multipart_serialised.eqx'' other_hyperparameters small_model fresh_world)))
     = Inl TruncatedStream"
proof -
  let ?sk = "\<lparr>layers = [\<lparr>weight = [[0, 0]], bias = [0]\<rparr>, \<lparr>weight = [[0]], bias = [0 :: f32]\<rparr>],
            activation = Relu\<rparr>"
  have r: "representable (dumps_depth fresh_world) other_hyperparameters"
    "representable (loads_depth fresh_world) other_hyperparameters"
    by (simp_all add: representable_def plain_other within_limits_other fresh_world_def)
  have w: "writable fresh_world ''multipart_serialised.eqx''"
    by (simp add: fresh_world_def)
  have n: "length (leaf_words small_model) = 2" "length (leaf_words ?sk) = 5"
    by (simp_all add: leaf_words_def small_model_def)
  from load_wrong_size [OF r valid_name_example w make_other, of small_model] n
  show ?thesis by simp
qed

subsection \<open>Two invocations of the writer\<close>

lemma save_succeeded:
  assumes "fst (save filename params model w) = Inr ()"
  obtains param_str line where "valid_name filename" "writable w filename"
    "json_dumps (dumps_depth w) params = Inr param_str"
    "str_encode (param_str @ [10]) = Inr line"
    "save filename params model w =
       (Inr (), w\<lparr>files := (files w)(filename \<mapsto> line @ leaf_bytes model),
                  events := events w @ [Opened filename WB, Wrote filename line,
                                        Wrote filename (leaf_bytes model),
                                        Closed filename]\<rparr>)"
proof -
  have o: "valid_name filename \<and> writable w filename"
  proof (rule ccontr)
    assume "\<not> (valid_name filename \<and> writable w filename)"
    then have "save filename params model w = (Inl OpenFailed, w)" by (rule save_open_failed)
    with assms show False by simp
  qed
  then have s: "save filename params model w =
    (case json_dumps (dumps_depth w) params of
       Inl e \<Rightarrow>
         (Inl e, w\<lparr>files := (files w)(filename \<mapsto> []),
                   events := events w @ [Opened filename WB, Closed filename]\<rparr>)
     | Inr param_str \<Rightarrow>
         (case str_encode (param_str @ [10]) of
            Inl e \<Rightarrow>
              (Inl e, w\<lparr>files := (files w)(filename \<mapsto> []),
                        events := events w @ [Opened filename WB, Closed filename]\<rparr>)
          | Inr line \<Rightarrow>
              (Inr (), w\<lparr>files := (files w)(filename \<mapsto> line @ leaf_bytes model),
                         events := events w @ [Opened filename WB, Wrote filename line,
                                               Wrote filename (leaf_bytes model),
                                               Closed filename]\<rparr>)))"
    by (simp add: save_opened)
  from assms obtain param_str where p: "json_dumps (dumps_depth w) params = Inr param_str"
    unfolding s by (cases "json_dumps (dumps_depth w) params") simp_all
  from assms obtain line where l: "str_encode (param_str @ [10]) = Inr line"
    unfolding s p by (cases "str_encode (param_str @ [10])") simp_all
  from o p l s that show ?thesis by simp
qed

lemma save_twice:
  "fst (save filename params model (snd (save filename params model w)))
     = fst (save filename params model w)
   \<and> files (snd (save filename params model (snd (save filename params model w))))
       = files (snd (save filename params model w))"
proof (cases "valid_name filename \<and> writable w filename")
  case False
  then have "save filename params model w = (Inl OpenFailed, w)" by (rule save_open_failed)
  then show ?thesis by simp
next
  case True
  then have v: "valid_name filename" and o: "writable w filename" by simp_all
  let ?w = "snd (save filename params model w)"
  have o': "writable ?w filename" and d: "dumps_depth ?w = dumps_depth w"
    using o by (simp_all add: save_opened [OF v o] split: sum.splits)
  show ?thesis
    unfolding save_opened [OF v o', of params model] d
    by (simp add: save_opened [OF v o] split: sum.splits)
qed

text \<open>
  C7. Two invocations of \<^verbatim>\<open>save\<close> on the same hyperparameters and model that both
  succeed, in any two states of the world and on any two files, write the same bytes to
  the file, in the same two writes, and leave the same bytes in it: the text that
  \<^verbatim>\<open>json.dumps\<close> returns and the bytes of the leaves do not depend on the state in
  which they are computed. An invocation that follows another on the same file has the
  same outcome, and leaves every file as the first has left it: the file is written
  anew, and not appended to.
\<close>

theorem save_deterministic:
  "(fst (save filename params model w) = Inr () \<and> fst (save filename' params model w') = Inr ()
      \<longrightarrow> (\<exists>line.
             files (snd (save filename params model w)) filename
               = Some (line @ leaf_bytes model)
           \<and> files (snd (save filename' params model w')) filename'
               = Some (line @ leaf_bytes model)
           \<and> drop (length (events w)) (events (snd (save filename params model w)))
               = [Opened filename WB, Wrote filename line,
                  Wrote filename (leaf_bytes model), Closed filename]
           \<and> drop (length (events w')) (events (snd (save filename' params model w')))
               = [Opened filename' WB, Wrote filename' line,
                  Wrote filename' (leaf_bytes model), Closed filename']))
   \<and> fst (save filename params model (snd (save filename params model w)))
       = fst (save filename params model w)
   \<and> files (snd (save filename params model (snd (save filename params model w))))
       = files (snd (save filename params model w))"
proof -
  have "\<exists>line.
             files (snd (save filename params model w)) filename
               = Some (line @ leaf_bytes model)
           \<and> files (snd (save filename' params model w')) filename'
               = Some (line @ leaf_bytes model)
           \<and> drop (length (events w)) (events (snd (save filename params model w)))
               = [Opened filename WB, Wrote filename line,
                  Wrote filename (leaf_bytes model), Closed filename]
           \<and> drop (length (events w')) (events (snd (save filename' params model w')))
               = [Opened filename' WB, Wrote filename' line,
                  Wrote filename' (leaf_bytes model), Closed filename']"
    if a: "fst (save filename params model w) = Inr ()"
      and b: "fst (save filename' params model w') = Inr ()"
  proof -
    from a obtain t line where 1: "json_dumps (dumps_depth w) params = Inr t"
      "str_encode (t @ [10]) = Inr line"
      "save filename params model w =
       (Inr (), w\<lparr>files := (files w)(filename \<mapsto> line @ leaf_bytes model),
                  events := events w @ [Opened filename WB, Wrote filename line,
                                        Wrote filename (leaf_bytes model),
                                        Closed filename]\<rparr>)"
      by (rule save_succeeded)
    from b obtain t' line' where 2: "json_dumps (dumps_depth w') params = Inr t'"
      "str_encode (t' @ [10]) = Inr line'"
      "save filename' params model w' =
       (Inr (), w'\<lparr>files := (files w')(filename' \<mapsto> line' @ leaf_bytes model),
                  events := events w' @ [Opened filename' WB, Wrote filename' line',
                                        Wrote filename' (leaf_bytes model),
                                        Closed filename']\<rparr>)"
      by (rule save_succeeded)
    from 1(1) 2(1) have "t = t'" by (rule json_dumps_depth)
    with 1(2) 2(2) have "line = line'" by simp
    with 1(3) 2(3) show ?thesis by simp
  qed
  with save_twice [of filename params model w] show ?thesis by blast
qed

theorem save_deterministic_witness:
  "fst (save ''multipart_serialised.eqx'' hyperparameters example_model fresh_world) = Inr ()
   \<and> fst (save ''copy.eqx'' hyperparameters example_model old_world) = Inr ()
   \<and> files (snd (save ''multipart_serialised.eqx'' hyperparameters example_model fresh_world))
        ''multipart_serialised.eqx''
      = files (snd (save ''copy.eqx'' hyperparameters example_model old_world)) ''copy.eqx''"
proof -
  have a: "fst (save ''multipart_serialised.eqx'' hyperparameters example_model fresh_world)
      = Inr ()"
    using save_encoded [of hyperparameters fresh_world "''multipart_serialised.eqx''"
        example_model] plain_hyperparameters within_limits_hyperparameters valid_name_example
    by (simp add: fresh_world_def)
  have b: "fst (save ''copy.eqx'' hyperparameters example_model old_world) = Inr ()"
    using save_encoded [of hyperparameters old_world "''copy.eqx''" example_model]
      plain_hyperparameters within_limits_hyperparameters
    by (simp add: old_world_def fresh_world_def valid_name_def)
  from save_deterministic [of "''multipart_serialised.eqx''" hyperparameters example_model
      fresh_world "''copy.eqx''" old_world] a b
  show ?thesis by auto
qed

subsection \<open>The example of the notebook\<close>

text \<open>
  C8. With the hyperparameters \<^verbatim>\<open>{"size": 5, "width": 10, "depth": 3, "use_tanh":
  True}\<close>, the constructor returns a model, under any generator and key; saving the
  hyperparameters and the model to a file that can be opened, and loading the file, gives
  a model; layer 1 of both has a weight with an element at position (2, 2); and the two
  elements are equal, which is what the \<^verbatim>\<open>assert\<close> of the notebook checks.
\<close>

theorem example_weight_preserved:
  assumes "valid_name filename" "writable w filename" "0 < dumps_depth w" "0 < loads_depth w"
  shows "case make_kwargs rng k hyperparameters of
     Inl e \<Rightarrow> False
   | Inr model \<Rightarrow>
       (case fst (load rng' filename (snd (save filename hyperparameters model w))) of
          Inl e \<Rightarrow> False
        | Inr newmodel \<Rightarrow>
            1 < length (layers model)
            \<and> 2 < length (weight (layers model ! 1))
            \<and> 2 < length (weight (layers model ! 1) ! 2)
            \<and> weight (layers model ! 1) ! 2 ! 2 = weight (layers newmodel ! 1) ! 2 ! 2)"
proof -
  define m where "m = \<lparr>layers = mlp_layers rng k 5 1 10 3, activation = Tanh\<rparr>"
  have mk: "make_kwargs rng k hyperparameters = Inr m"
    unfolding m_def by (rule make_hyperparameters)
  have ld: "fst (load rng' filename (snd (save filename hyperparameters m w))) = Inr m"
    using plain_hyperparameters within_limits_hyperparameters [OF assms(3)]
      within_limits_hyperparameters [OF assms(4)] assms(1,2) mk
    by (rule load_save_round_trip)
  have len: "1 < length (layers m)"
    by (simp add: m_def mlp_layers_def)
  have "layers m ! 1 = Linear rng k 1 10 10"
    by (simp add: m_def mlp_layers_def upt_numeral)
  then have "2 < length (weight (layers m ! 1))" "2 < length (weight (layers m ! 1) ! 2)"
    by (simp_all add: Linear_def)
  with len show ?thesis
    by (simp add: mk ld)
qed

theorem example_weight_preserved_witness:
  "case make_kwargs zero_rng (PRNGKey 0) hyperparameters of
     Inl e \<Rightarrow> False
   | Inr model \<Rightarrow>
       (case fst (load zero_rng ''multipart_serialised.eqx''
                   (snd (save ''multipart_serialised.eqx'' hyperparameters model fresh_world))) of
          Inl e \<Rightarrow> False
        | Inr newmodel \<Rightarrow>
            weight (layers model ! 1) ! 2 ! 2 = weight (layers newmodel ! 1) ! 2 ! 2)"
proof -
  have "writable fresh_world ''multipart_serialised.eqx''" "0 < dumps_depth fresh_world"
    "0 < loads_depth fresh_world"
    by (simp_all add: fresh_world_def)
  with example_weight_preserved [where filename = "''multipart_serialised.eqx''"
      and w = fresh_world and rng = zero_rng and k = "PRNGKey 0" and rng' = zero_rng]
    valid_name_example
  show ?thesis
    by (auto split: sum.splits)
qed

subsection \<open>Opening and closing\<close>

lemma open_count_append:
  "open_count n (xs @ ys) = open_count n xs + open_count n ys"
  by (simp add: open_count_def)

lemma open_count_block: "list_all (block_event filename) body \<Longrightarrow> open_count n body = 0"
proof (induction body)
  case Nil
  then show ?case by (simp add: open_count_def)
next
  case (Cons e body)
  then show ?case by (cases e) (simp_all add: open_count_def)
qed

lemma open_count_scoped:
  assumes "list_all (block_event filename) body"
  shows "open_count n (es @ Opened filename m # body @ [Closed filename]) = open_count n es"
proof -
  have "open_count n (es @ [Opened filename m] @ body @ [Closed filename])
      = open_count n es + open_count n [Opened filename m] + open_count n body
        + open_count n [Closed filename]"
    by (simp only: open_count_append)
  then show ?thesis
    using open_count_block [OF assms, of n] by (simp add: open_count_def)
qed

lemma save_scoped:
  assumes "valid_name filename" "writable w filename"
  shows "\<exists>body. events (snd (save filename params model w))
                  = events w @ Opened filename WB # body @ [Closed filename]
              \<and> list_all (block_event filename) body
              \<and> files (snd (save filename params model w)) filename
                  = Some (written filename body)"
proof -
  note s = save_opened [OF assms, of params model]
  show ?thesis
  proof (cases "json_dumps (dumps_depth w) params")
    case (Inl e)
    then have "events (snd (save filename params model w))
        = events w @ Opened filename WB # [] @ [Closed filename]
      \<and> list_all (block_event filename) []
      \<and> files (snd (save filename params model w)) filename = Some (written filename [])"
      by (simp add: s)
    then show ?thesis by blast
  next
    case (Inr t)
    show ?thesis
    proof (cases "str_encode (t @ [10])")
      case (Inl e)
      with Inr have "events (snd (save filename params model w))
          = events w @ Opened filename WB # [] @ [Closed filename]
        \<and> list_all (block_event filename) []
        \<and> files (snd (save filename params model w)) filename = Some (written filename [])"
        by (simp add: s)
      then show ?thesis by blast
    next
      case (Inr line)
      let ?body = "[Wrote filename line, Wrote filename (leaf_bytes model)]"
      from Inr \<open>json_dumps (dumps_depth w) params = Inr t\<close>
      have "events (snd (save filename params model w))
          = events w @ Opened filename WB # ?body @ [Closed filename]
        \<and> list_all (block_event filename) ?body
        \<and> files (snd (save filename params model w)) filename = Some (written filename ?body)"
        by (simp add: s)
      then show ?thesis by blast
    qed
  qed
qed

lemma load_scoped:
  assumes "valid_name filename" "files w filename = Some content"
  shows "\<exists>body. events (snd (load rng filename w))
                  = events w @ Opened filename RB # body @ [Closed filename]
              \<and> list_all (block_event filename) body
              \<and> (\<exists>rest. content = bytes_read filename body @ rest)"
proof -
  obtain line rest where r: "readline content = (line, rest)" by (cases "readline content")
  then have c: "content = line @ rest" by (simp add: readline_append)
  note l = load_opened [OF assms r, of rng]
  let ?P = "\<lambda>body. events (snd (load rng filename w))
                  = events w @ Opened filename RB # body @ [Closed filename]
              \<and> list_all (block_event filename) body
              \<and> (\<exists>rest. content = bytes_read filename body @ rest)"
  have short: "?P [Read filename line]"
    if "events (snd (load rng filename w))
      = events w @ [Opened filename RB, Read filename line, Closed filename]"
    using that c by simp
  show ?thesis
  proof (cases "bytes_decode line")
    case (Inl e)
    then have "?P [Read filename line]" by (intro short) (simp add: l)
    then show ?thesis by blast
  next
    case (Inr s)
    note s = this
    show ?thesis
    proof (cases "json_loads (loads_depth w) s")
      case (Inl e)
      with s have "?P [Read filename line]" by (intro short) (simp add: l)
      then show ?thesis by blast
    next
      case (Inr params)
      note p = this
      show ?thesis
      proof (cases "make_kwargs rng (PRNGKey 0) params")
        case (Inl e)
        with s p c have "?P [Read filename line, Called (PRNGKey 0) params]"
          by (simp add: l)
        then show ?thesis by blast
      next
        case (Inr skeleton)
        with s p c have "?P [Read filename line, Called (PRNGKey 0) params, Read filename rest]"
          by (simp add: l)
        then show ?thesis by blast
      qed
    qed
  qed
qed

text \<open>
  C9, as the specification states it, does not hold: \<^verbatim>\<open>open\<close> takes no lock, and
  nothing in \<^verbatim>\<open>save\<close> or \<^verbatim>\<open>load\<close> does. While another handle on the file is open,
  \<^verbatim>\<open>save\<close> opens the file, replaces its content and succeeds: the file is not held
  exclusively.
\<close>

theorem save_not_exclusive_counterexample:
  "open_count ''multipart_serialised.eqx'' (events busy_world) = 1
   \<and> files busy_world ''multipart_serialised.eqx'' = Some [1, 2, 3]
   \<and> fst (save ''multipart_serialised.eqx'' hyperparameters example_model busy_world) = Inr ()
   \<and> files (snd (save ''multipart_serialised.eqx'' hyperparameters example_model busy_world))
        ''multipart_serialised.eqx''
       = Some (map of_nat (json_text hyperparameters) @ 10 # leaf_bytes example_model)
   \<and> map of_nat (json_text hyperparameters) @ 10 # leaf_bytes example_model \<noteq> [1, 2, 3]"
proof -
  have "save ''multipart_serialised.eqx'' hyperparameters example_model busy_world =
    (Inr (), busy_world\<lparr>files := (files busy_world)(''multipart_serialised.eqx'' \<mapsto>
                   map of_nat (json_text hyperparameters) @ 10 # leaf_bytes example_model),
               events := events busy_world @ [Opened ''multipart_serialised.eqx'' WB,
                   Wrote ''multipart_serialised.eqx'' (map of_nat (json_text hyperparameters) @ [10]),
                   Wrote ''multipart_serialised.eqx'' (leaf_bytes example_model),
                   Closed ''multipart_serialised.eqx'']\<rparr>)"
    using plain_hyperparameters _ valid_name_example
    by (rule save_encoded)
      (simp_all add: within_limits_hyperparameters busy_world_def old_world_def fresh_world_def)
  moreover have "map of_nat (json_text hyperparameters) @ 10 # leaf_bytes example_model
      \<noteq> ([1, 2, 3] :: byte list)"
    by (simp add: hyperparameters_def)
  ultimately show ?thesis
    by (simp add: busy_world_def old_world_def fresh_world_def open_count_def)
qed

text \<open>
  C9, amended. \<^verbatim>\<open>save\<close> and \<^verbatim>\<open>load\<close> each open the file at most once. When the
  file cannot be opened, the operation fails and the world is as it was: nothing is
  opened. When it can, the events of the operation are the opening of the file, then only
  writes to the file (by \<^verbatim>\<open>save\<close>) or reads from it and the call of the constructor
  (by \<^verbatim>\<open>load\<close>), then the closing of the file, whether the operation fails or not; what
  \<^verbatim>\<open>save\<close> leaves in the file is what it has written between the opening and the
  closing, and what \<^verbatim>\<open>load\<close> has read between them is the content of the file, from
  its start. After either operation every file has as many open handles as before. The
  file is not locked.
\<close>

theorem scoped_open_close:
  "(case open_wb filename w of
      Inl e \<Rightarrow> save filename params model w = (Inl e, w)
    | Inr w1 \<Rightarrow>
        (\<exists>body. events (snd (save filename params model w))
                  = events w @ Opened filename WB # body @ [Closed filename]
              \<and> list_all (block_event filename) body
              \<and> files (snd (save filename params model w)) filename
                  = Some (written filename body)))
   \<and> (case open_rb filename w of
      Inl e \<Rightarrow> load rng filename w = (Inl e, w)
    | Inr (content, w1) \<Rightarrow>
        (\<exists>body. events (snd (load rng filename w))
                  = events w @ Opened filename RB # body @ [Closed filename]
              \<and> list_all (block_event filename) body
              \<and> (\<exists>rest. content = bytes_read filename body @ rest)))
   \<and> open_count n (events (snd (save filename params model w))) = open_count n (events w)
   \<and> open_count n (events (snd (load rng filename w))) = open_count n (events w)"
proof -
  have s: "case open_wb filename w of
      Inl e \<Rightarrow> save filename params model w = (Inl e, w)
    | Inr w1 \<Rightarrow>
        (\<exists>body. events (snd (save filename params model w))
                  = events w @ Opened filename WB # body @ [Closed filename]
              \<and> list_all (block_event filename) body
              \<and> files (snd (save filename params model w)) filename
                  = Some (written filename body))"
  proof (cases "valid_name filename \<and> writable w filename")
    case True
    then have "\<exists>w1. open_wb filename w = Inr w1" by (simp add: open_wb_def)
    with True save_scoped [of filename w params model] show ?thesis by auto
  next
    case False
    then have "open_wb filename w = Inl OpenFailed" by (auto simp add: open_wb_def)
    with False save_open_failed [of filename w params model] show ?thesis by simp
  qed
  have l: "case open_rb filename w of
      Inl e \<Rightarrow> load rng filename w = (Inl e, w)
    | Inr (content, w1) \<Rightarrow>
        (\<exists>body. events (snd (load rng filename w))
                  = events w @ Opened filename RB # body @ [Closed filename]
              \<and> list_all (block_event filename) body
              \<and> (\<exists>rest. content = bytes_read filename body @ rest))"
  proof (cases "valid_name filename \<and> files w filename \<noteq> None")
    case True
    then obtain content where c: "files w filename = Some content" by auto
    with True have "\<exists>w1. open_rb filename w = Inr (content, w1)" by (simp add: open_rb_def)
    with True c load_scoped [of filename w content rng] show ?thesis by auto
  next
    case False
    then have "open_rb filename w = Inl OpenFailed"
      by (auto simp add: open_rb_def split: option.splits)
    with False load_open_failed [of filename w rng] show ?thesis by simp
  qed
  have cs: "open_count n (events (snd (save filename params model w))) = open_count n (events w)"
  proof (cases "valid_name filename \<and> writable w filename")
    case True
    with save_scoped [of filename w params model] show ?thesis
      by (auto simp add: open_count_scoped)
  next
    case False
    with save_open_failed [of filename w params model] show ?thesis by simp
  qed
  have cl: "open_count n (events (snd (load rng filename w))) = open_count n (events w)"
  proof (cases "valid_name filename \<and> files w filename \<noteq> None")
    case True
    then obtain content where c: "files w filename = Some content" by auto
    with True load_scoped [of filename w content rng] show ?thesis
      by (auto simp add: open_count_scoped)
  next
    case False
    with load_open_failed [of filename w rng] show ?thesis by simp
  qed
  from s l cs cl show ?thesis by simp
qed

theorem scoped_open_close_witness:
  "(\<exists>body. events (snd (save ''multipart_serialised.eqx'' unencodable_hyperparameters
                           example_model good_world))
             = Opened ''multipart_serialised.eqx'' WB # body @ [Closed ''multipart_serialised.eqx'']
         \<and> list_all (block_event ''multipart_serialised.eqx'') body)
   \<and> (\<exists>body. events (snd (load zero_rng ''multipart_serialised.eqx'' good_world))
             = Opened ''multipart_serialised.eqx'' RB # body @ [Closed ''multipart_serialised.eqx'']
         \<and> list_all (block_event ''multipart_serialised.eqx'') body)
   \<and> save '''' hyperparameters example_model good_world = (Inl OpenFailed, good_world)
   \<and> load zero_rng ''absent.eqx'' good_world = (Inl OpenFailed, good_world)"
proof -
  let ?rest = "[0, 0, 128, 63, 0, 0, 0, 64] :: byte list"
  have e: "events good_world = []"
    by (simp add: good_world_def fresh_world_def)
  obtain w1 where w1: "open_wb ''multipart_serialised.eqx'' good_world = Inr w1"
    by (simp add: open_wb_def good_world_def fresh_world_def valid_name_def)
  obtain w2 where w2: "open_rb ''multipart_serialised.eqx'' good_world
      = Inr (small_header @ 10 # ?rest, w2)"
    by (simp add: open_rb_def good_world_def fresh_world_def valid_name_def)
  have a: "(\<exists>body. events (snd (save ''multipart_serialised.eqx''
                           unencodable_hyperparameters example_model good_world))
             = Opened ''multipart_serialised.eqx'' WB # body @ [Closed ''multipart_serialised.eqx'']
         \<and> list_all (block_event ''multipart_serialised.eqx'') body)
   \<and> (\<exists>body. events (snd (load zero_rng ''multipart_serialised.eqx'' good_world))
             = Opened ''multipart_serialised.eqx'' RB # body @ [Closed ''multipart_serialised.eqx'']
         \<and> list_all (block_event ''multipart_serialised.eqx'') body)"
    using scoped_open_close [where filename = "''multipart_serialised.eqx''"
        and w = good_world and params = unencodable_hyperparameters and model = example_model
        and rng = zero_rng and n = "[]"]
    unfolding w1 w2 by (simp add: e) blast
  have "open_wb '''' good_world = Inl OpenFailed"
    by (simp add: open_wb_def valid_name_def)
  then have b: "save '''' hyperparameters example_model good_world = (Inl OpenFailed, good_world)"
    using scoped_open_close [where filename = "''''"
        and w = good_world and params = hyperparameters and model = example_model
        and rng = zero_rng and n = "[]"]
    by simp
  have "open_rb ''absent.eqx'' good_world = Inl OpenFailed"
    by (simp add: open_rb_def good_world_def fresh_world_def valid_name_def)
  then have c: "load zero_rng ''absent.eqx'' good_world = (Inl OpenFailed, good_world)"
    using scoped_open_close [where filename = "''absent.eqx''"
        and w = good_world and params = hyperparameters and model = example_model
        and rng = zero_rng and n = "[]"]
    by simp
  from a b c show ?thesis by simp
qed

subsection \<open>The generator of the skeleton\<close>

text \<open>
  C10. The outcome of \<^verbatim>\<open>load\<close>, and the world it leaves, do not depend on the
  generator of the initial weights: the key is fixed, the structure of the skeleton is
  fixed by the hyperparameters of the file, and every leaf of the skeleton is replaced.
  So \<^verbatim>\<open>load\<close> depends on the file alone, whatever generator and key built the model
  that was saved.
\<close>

theorem load_independent_of_rng:
  "load rng filename w = load rng' filename w"
proof (cases "valid_name filename \<and> files w filename \<noteq> None")
  case False
  then have "\<not> valid_name filename \<or> files w filename = None" by simp
  then show ?thesis by (simp add: load_open_failed)
next
  case True
  then obtain content where v: "valid_name filename" and c: "files w filename = Some content"
    by auto
  obtain line rest where r: "readline content = (line, rest)" by (cases "readline content")
  note l = load_opened [OF v c r]
  show ?thesis
  proof (cases "bytes_decode line")
    case (Inl e)
    then show ?thesis by (simp add: l)
  next
    case (Inr s)
    note s = this
    show ?thesis
    proof (cases "json_loads (loads_depth w) s")
      case (Inl e)
      with s show ?thesis by (simp add: l)
    next
      case (Inr params)
      note p = this
      show ?thesis
      proof (cases "make_kwargs rng (PRNGKey 0) params")
        case (Inl e)
        then have "make_kwargs rng' (PRNGKey 0) params = Inl e" by (rule make_kwargs_failure)
        with Inl s p show ?thesis by (simp add: l)
      next
        case (Inr sk)
        from make_kwargs_shape [OF this, of rng' "PRNGKey 0"] obtain sk'
          where sk': "make_kwargs rng' (PRNGKey 0) params = Inr sk'" "shape sk' = shape sk"
            "activation sk' = activation sk"
          by blast
        from sk'(2,3) have "fill_from rest sk' = fill_from rest sk" by (rule fill_from_cong)
        with Inr sk'(1) s p show ?thesis by (simp add: l)
      qed
    qed
  qed
qed

end
